theory Spec2Isabelle
  imports Main "HOL-Library.Word"
begin

section \<open>PersistentBuffer: the data model\<close>

text \<open>
  The pool of \<^verbatim>\<open>PersistentBuffer.cpp\<close> is a set of static members. They are
  gathered in the record \<open>Pool\<close>, which every operation takes and returns.

  \<^item> A \<^verbatim>\<open>BufferPtr\<close> (\<^verbatim>\<open>std::shared_ptr<Buffer>\<close>) is \<open>None\<close> for the null pointer
    and \<open>Some i\<close> for the \<open>i\<close>-th \<^verbatim>\<open>Buffer\<close> object ever created; the objects
    are the list \<open>heap\<close>. A shared pointer keeps its object alive, so objects are never
    taken out of \<open>heap\<close>; \<^verbatim>\<open>std::make_shared<Buffer>()\<close> appends one.
  \<^item> \<^verbatim>\<open>uint32_t\<close> is \<open>32 word\<close>. \<^verbatim>\<open>time_t\<close> and the \<^verbatim>\<open>int\<close> counter
    \<^verbatim>\<open>m_buffers_in_use\<close> are \<open>int\<close>: their overflow is undefined in C++ and not
    reached by any property below. \<^verbatim>\<open>size_t\<close> is taken to be 64 bits wide.
  \<^item> \<^verbatim>\<open>m_buffers\<close> (\<^verbatim>\<open>std::map<BufferPtr, bool>\<close>) is a map from object indices to
    \<open>bool\<close>; the pointers the pool stores in its own containers are never null.
  \<^item> \<^verbatim>\<open>time(nullptr)\<close> is the argument \<open>now\<close> of the operation that reads the clock.
  \<^item> \<^verbatim>\<open>assert\<close> is modelled as compiled in: a failed assertion is the error
    \<open>AssertionFailed\<close>. Dereferencing a null pointer and
    \<^verbatim>\<open>vector::erase(end())\<close> are errors as well.
  \<^item> The mutex is not modelled: every operation runs alone.
  \<^item> \<^verbatim>\<open>single_buffer_from\<close>, which copies bytes into the buffer that
    \<^verbatim>\<open>single_buffer_unprotected\<close> returns, and the tracking output of the first
    revision are left out.
  The source holds two revisions of the file. They agree on everything modelled here
  except the release operations, which are modelled from both.
\<close>

datatype Policy = ZeroBuffer | DropOld

datatype error = AssertionFailed | NullDereference | EraseAtEnd

type_synonym time_t = int
type_synonym BufferPtr = "nat option"

text \<open>
  The storage of a buffer: \<open>None\<close> is the null \<^verbatim>\<open>DataPtr\<close>; otherwise one cell per
  byte, \<open>None\<close> for a byte that \<^verbatim>\<open>new uint8_t[n]\<close> left indeterminate.
\<close>

type_synonym DataPtr = "8 word option list option"

record Buffer =
  m_in_use :: bool
  m_data_size :: "32 word"
  m_allocated :: "32 word"
  m_usage_count :: "32 word"
  m_last_used :: time_t
  m_buffer :: DataPtr

text \<open>The default member initialisers of \<^verbatim>\<open>class Buffer\<close>.\<close>

definition Buffer_new :: Buffer where
  "Buffer_new = \<lparr>m_in_use = False, m_data_size = 0, m_allocated = 0,
     m_usage_count = 0, m_last_used = 0, m_buffer = None\<rparr>"

text \<open>\<^verbatim>\<open>Buffer::reset()\<close>; it leaves \<^verbatim>\<open>m_usage_count\<close> alone.\<close>

definition Buffer_reset :: "Buffer \<Rightarrow> Buffer" where
  "Buffer_reset b = b\<lparr>m_in_use := False, m_data_size := 0, m_allocated := 0,
     m_buffer := None, m_last_used := 0\<rparr>"

record Pool =
  heap :: "Buffer list"
  m_cleanup_timeout :: time_t
  m_last_cleanup_check :: time_t
  m_policies :: "Policy set"
  m_buffers :: "nat \<rightharpoonup> bool"
  m_buffers_in_use :: int
  m_size_list :: "nat list"
  m_initialized :: bool

text \<open>The static initialisers at the head of the file.\<close>

definition static_init :: Pool where
  "static_init = \<lparr>heap = [], m_cleanup_timeout = 0, m_last_cleanup_check = 0,
     m_policies = {}, m_buffers = Map.empty, m_buffers_in_use = 0,
     m_size_list = [], m_initialized = False\<rparr>"

text \<open>
  The object a handle points to, if any. A handle \<open>Some i\<close> beyond the heap designates
  no object; C++ cannot build one, and it is treated like the null pointer.
\<close>

definition deref :: "Pool \<Rightarrow> BufferPtr \<Rightarrow> Buffer option" where
  "deref s h = (case h of None \<Rightarrow> None
     | Some i \<Rightarrow> if i < length (heap s) then Some (heap s ! i) else None)"

section \<open>Configuration\<close>

definition initialize :: "Pool \<Rightarrow> Pool" where
  "initialize s = s\<lparr>m_policies := insert ZeroBuffer (m_policies s), m_initialized := True\<rparr>"

definition set_policy :: "Policy \<Rightarrow> Pool \<Rightarrow> Pool" where
  "set_policy p s = s\<lparr>m_policies := insert p (m_policies s)\<rparr>"

text \<open>The overload taking an initializer list: it sets each policy, clearing none.\<close>

definition set_policies :: "Policy list \<Rightarrow> Pool \<Rightarrow> Pool" where
  "set_policies ps s = fold set_policy ps s"

definition clear_policy :: "Policy \<Rightarrow> Pool \<Rightarrow> Pool" where
  "clear_policy p s = s\<lparr>m_policies := m_policies s - {p}\<rparr>"

definition policy_is_active :: "Policy \<Rightarrow> Pool \<Rightarrow> bool" where
  "policy_is_active p s = (p \<in> m_policies s)"

definition set_cleanup_timeout :: "time_t \<Rightarrow> time_t \<Rightarrow> Pool \<Rightarrow> Pool" where
  "set_cleanup_timeout seconds now s =
     set_policy DropOld (s\<lparr>m_cleanup_timeout := seconds, m_last_cleanup_check := now\<rparr>)"

text \<open>\<^verbatim>\<open>buffers_in_use()\<close> returns the \<^verbatim>\<open>int\<close> counter converted to \<^verbatim>\<open>size_t\<close>.\<close>

definition buffers_in_use :: "Pool \<Rightarrow> 64 word" where
  "buffers_in_use s = word_of_int (m_buffers_in_use s)"

definition buffers_available :: "Pool \<Rightarrow> nat" where
  "buffers_available s = length (m_size_list s)"

definition buffer_in_use :: "BufferPtr \<Rightarrow> Pool \<Rightarrow> bool" where
  "buffer_in_use h s = (case deref s h of None \<Rightarrow> False | Some b \<Rightarrow> m_in_use b)"

text \<open>
  \<^verbatim>\<open>reset()\<close>: the policies are cleared and \<^verbatim>\<open>ZeroBuffer\<close> set, every key of
  \<^verbatim>\<open>m_buffers\<close> gets \<^verbatim>\<open>Buffer::reset()\<close>, and \<^verbatim>\<open>m_buffers\<close> is cleared. Nothing
  else is assigned.
\<close>

definition reset :: "Pool \<Rightarrow> Pool" where
  "reset s = s\<lparr>m_policies := {ZeroBuffer},
     heap := map (\<lambda>(i, b). if m_buffers s i \<noteq> None then Buffer_reset b else b)
               (zip [0..<length (heap s)] (heap s)),
     m_buffers := Map.empty\<rparr>"

section \<open>Eviction\<close>

text \<open>
  The second loop of \<^verbatim>\<open>garbage_collect\<close>: each buffer to drop is erased from
  \<^verbatim>\<open>m_buffers\<close>, then found in \<^verbatim>\<open>m_size_list\<close> and erased there. When
  \<^verbatim>\<open>std::find\<close> finds nothing it returns \<^verbatim>\<open>end()\<close>, which \<^verbatim>\<open>erase\<close> must not
  be given.
\<close>

fun drop_buffers :: "nat list \<Rightarrow> Pool \<Rightarrow> error + Pool" where
  "drop_buffers [] s = Inr s"
| "drop_buffers (p # ps) s =
     (if p \<in> set (m_size_list s)
      then drop_buffers ps (s\<lparr>m_buffers := (m_buffers s)(p := None),
                               m_size_list := remove1 p (m_size_list s)\<rparr>)
      else Inl EraseAtEnd)"

text \<open>
  The first loop runs over the keys of \<^verbatim>\<open>m_buffers\<close>, which are objects of the heap,
  and collects those that pass the test: free, and idle for more than the timeout. The
  map is ordered by pointer value; the model takes the order of the indices.
\<close>

definition too_old :: "time_t \<Rightarrow> Pool \<Rightarrow> nat \<Rightarrow> bool" where
  "too_old start_time s p =
     (\<not> m_in_use (heap s ! p) \<and> start_time - m_last_used (heap s ! p) > m_cleanup_timeout s)"

definition buffers_to_drop :: "time_t \<Rightarrow> Pool \<Rightarrow> nat list" where
  "buffers_to_drop start_time s =
     filter (\<lambda>p. m_buffers s p \<noteq> None \<and> too_old start_time s p) [0..<length (heap s)]"

definition garbage_collect :: "time_t \<Rightarrow> Pool \<Rightarrow> error + Pool" where
  "garbage_collect start_time s = drop_buffers (buffers_to_drop start_time s) s"

section \<open>Acquisition\<close>

text \<open>
  \<^verbatim>\<open>std::lower_bound\<close>, as the binary search the library runs: \<open>lt x\<close> is the
  comparison of the element \<open>x\<close> with the value looked for.
\<close>

function lower_bound_from :: "('a \<Rightarrow> bool) \<Rightarrow> 'a list \<Rightarrow> nat \<Rightarrow> nat \<Rightarrow> nat" where
  "lower_bound_from lt xs first len =
     (if len = 0 then first
      else let half = len div 2; middle = first + half in
        if lt (xs ! middle) then lower_bound_from lt xs (middle + 1) (len - half - 1)
        else lower_bound_from lt xs first half)"
  by pat_completeness auto
termination
  by (relation "measure (\<lambda>(lt, xs, first, len). len)") auto

definition lower_bound :: "('a \<Rightarrow> bool) \<Rightarrow> 'a list \<Rightarrow> nat" where
  "lower_bound lt xs = lower_bound_from lt xs 0 (length xs)"

text \<open>
  \<^verbatim>\<open>while (iter != m_size_list.end() && (*iter)->m_in_use) ++iter;\<close>
\<close>

function skip_in_use :: "Buffer list \<Rightarrow> nat list \<Rightarrow> nat \<Rightarrow> nat" where
  "skip_in_use hp xs i =
     (if i < length xs \<and> m_in_use (hp ! (xs ! i)) then skip_in_use hp xs (i + 1) else i)"
  by pat_completeness auto
termination
  by (relation "measure (\<lambda>(hp, xs, i). length xs - i)") auto

text \<open>
  The record built on the fresh-allocation path, zeroed under \<^verbatim>\<open>ZeroBuffer\<close>. The
  failure of \<^verbatim>\<open>new\<close> for lack of memory is not modelled.
\<close>

definition fresh_buffer :: "Policy set \<Rightarrow> 32 word \<Rightarrow> Buffer" where
  "fresh_buffer pol min_size =
     Buffer_new\<lparr>m_in_use := True,
       m_usage_count := m_usage_count Buffer_new + 1,
       m_allocated := min_size,
       m_data_size := min_size,
       m_buffer := Some (replicate (unat min_size)
                          (if ZeroBuffer \<in> pol then Some 0 else None))\<rparr>"

text \<open>
  \<^verbatim>\<open>std::sort\<close> by \<^verbatim>\<open>m_allocated\<close>. The order it gives records of equal capacity is
  not specified; the function takes the stable one, and \<open>reachable_api\<close> below lets the
  index be in any other sorted order.
\<close>

definition sort_by_allocated :: "Buffer list \<Rightarrow> nat list \<Rightarrow> nat list" where
  "sort_by_allocated hp xs = sort_key (\<lambda>p. m_allocated (hp ! p)) xs"

text \<open>
  The position of \<^verbatim>\<open>iter\<close> after the search and the scan; \<open>length (m_size_list s)\<close>
  stands for \<^verbatim>\<open>m_size_list.end()\<close>.
\<close>

definition find_free :: "32 word \<Rightarrow> Pool \<Rightarrow> nat" where
  "find_free min_size s =
     skip_in_use (heap s) (m_size_list s)
       (lower_bound (\<lambda>p. m_allocated (heap s ! p) < min_size) (m_size_list s))"

text \<open>The reuse branch, lines 487-492: the record found is put into use.\<close>

definition take_buffer :: "32 word \<Rightarrow> nat \<Rightarrow> Pool \<Rightarrow> Pool" where
  "take_buffer min_size p s =
     s\<lparr>heap := (heap s)[p := (heap s ! p)\<lparr>m_in_use := True, m_data_size := min_size,
                           m_usage_count := m_usage_count (heap s ! p) + 1\<rparr>],
       m_buffers_in_use := m_buffers_in_use s + 1\<rparr>"

text \<open>
  The fresh-allocation branch, lines 514-532: a new object, registered in
  \<^verbatim>\<open>m_buffers\<close>, pushed on \<^verbatim>\<open>m_size_list\<close>, which is then sorted.
\<close>

definition new_buffer :: "32 word \<Rightarrow> Pool \<Rightarrow> Pool" where
  "new_buffer min_size s =
     (let p = length (heap s);
          hp = heap s @ [fresh_buffer (m_policies s) min_size]
      in s\<lparr>heap := hp,
           m_buffers := (m_buffers s)(p \<mapsto> True),
           m_buffers_in_use := m_buffers_in_use s + 1,
           m_size_list := sort_by_allocated hp (m_size_list s @ [p])\<rparr>)"

text \<open>The two tests that guard the sweep, lines 535 and 538.\<close>

definition cleanup_due :: "time_t \<Rightarrow> Pool \<Rightarrow> bool" where
  "cleanup_due now s =
     ((DropOld \<in> m_policies s \<and> m_cleanup_timeout s \<noteq> 0)
      \<and> now - m_last_cleanup_check s > m_cleanup_timeout s)"

definition single_buffer_unprotected ::
    "32 word \<Rightarrow> time_t \<Rightarrow> Pool \<Rightarrow> error + (BufferPtr \<times> Pool)" where
  "single_buffer_unprotected min_size now s =
     (if \<not> m_initialized s then Inl AssertionFailed
      else
        let i = find_free min_size s in
        if i < length (m_size_list s) then
          let p = m_size_list s ! i in
          if \<not> (m_allocated (heap s ! p) \<ge> min_size) then Inl AssertionFailed
          else Inr (Some p, take_buffer min_size p s)
        else
          let p = length (heap s); s1 = new_buffer min_size s in
          if cleanup_due now s1 then
            (case garbage_collect now (s1\<lparr>m_last_cleanup_check := now\<rparr>) of
               Inl e \<Rightarrow> Inl e
             | Inr s2 \<Rightarrow> Inr (Some p, s2))
          else Inr (Some p, s1))"

text \<open>\<^verbatim>\<open>single_buffer\<close> takes the lock and calls the working method.\<close>

definition single_buffer :: "32 word \<Rightarrow> time_t \<Rightarrow> Pool \<Rightarrow> error + (BufferPtr \<times> Pool)" where
  "single_buffer min_size now s = single_buffer_unprotected min_size now s"

section \<open>Release\<close>

text \<open>
  The file holds two revisions of the release operations. \<open>release_buffer\<close> and
  \<open>release_buffers\<close> are those of lines 548-573: they use the handle as it comes.
  \<^verbatim>\<open>m_buffers[buffer] = true\<close> comes before the first dereference, which fails on a
  null handle.
\<close>

definition release_buffer :: "BufferPtr \<Rightarrow> time_t \<Rightarrow> Pool \<Rightarrow> error + (bool \<times> Pool)" where
  "release_buffer h now s =
     (case deref s h of
        None \<Rightarrow> Inl NullDereference
      | Some b \<Rightarrow>
          Inr (True,
            s\<lparr>heap := (heap s)[the h := b\<lparr>m_in_use := False, m_last_used := now\<rparr>],
              m_buffers := (m_buffers s)(the h \<mapsto> True),
              m_buffers_in_use := m_buffers_in_use s - 1\<rparr>))"

text \<open>One iteration of the loop of \<open>release_buffers\<close>; it does not touch \<^verbatim>\<open>m_buffers\<close>.\<close>

definition release_one :: "time_t \<Rightarrow> BufferPtr \<Rightarrow> Pool \<Rightarrow> error + Pool" where
  "release_one now h s =
     (case deref s h of
        None \<Rightarrow> Inl NullDereference
      | Some b \<Rightarrow>
          Inr (s\<lparr>heap := (heap s)[the h := b\<lparr>m_in_use := False, m_last_used := now\<rparr>],
                 m_buffers_in_use := m_buffers_in_use s - 1\<rparr>))"

fun release_loop :: "time_t \<Rightarrow> BufferPtr list \<Rightarrow> Pool \<Rightarrow> error + Pool" where
  "release_loop now [] s = Inr s"
| "release_loop now (h # hs) s =
     (case release_one now h s of Inl e \<Rightarrow> Inl e | Inr s' \<Rightarrow> release_loop now hs s')"

definition release_buffers :: "BufferPtr list \<Rightarrow> time_t \<Rightarrow> Pool \<Rightarrow> error + (bool \<times> Pool)" where
  "release_buffers hs now s =
     (case release_loop now hs s of Inl e \<Rightarrow> Inl e | Inr s' \<Rightarrow> Inr (True, s'))"

text \<open>
  The revision of lines 292-371 guards both with
  \<^verbatim>\<open>if (buffer.get() && buffer->m_in_use)\<close>; it has no failing branch.
\<close>

definition release_buffer_checked :: "BufferPtr \<Rightarrow> time_t \<Rightarrow> Pool \<Rightarrow> bool \<times> Pool" where
  "release_buffer_checked h now s =
     (case deref s h of
        None \<Rightarrow> (True, s)
      | Some b \<Rightarrow>
          if m_in_use b then
            (True,
             s\<lparr>heap := (heap s)[the h := b\<lparr>m_in_use := False, m_last_used := now\<rparr>],
               m_buffers := (m_buffers s)(the h \<mapsto> True),
               m_buffers_in_use := m_buffers_in_use s - 1\<rparr>)
          else (True, s))"

definition release_one_checked :: "time_t \<Rightarrow> BufferPtr \<Rightarrow> Pool \<Rightarrow> Pool" where
  "release_one_checked now h s =
     (case deref s h of
        None \<Rightarrow> s
      | Some b \<Rightarrow>
          if m_in_use b then
            s\<lparr>heap := (heap s)[the h := b\<lparr>m_in_use := False, m_last_used := now\<rparr>],
              m_buffers_in_use := m_buffers_in_use s - 1\<rparr>
          else s)"

definition release_buffers_checked :: "BufferPtr list \<Rightarrow> time_t \<Rightarrow> Pool \<Rightarrow> bool \<times> Pool" where
  "release_buffers_checked hs now s = (True, fold (release_one_checked now) hs s)"

section \<open>Well-formed pools\<close>

text \<open>
  What the containers of a pool satisfy between two calls: \<^verbatim>\<open>initialize\<close> has run,
  the pointers of \<^verbatim>\<open>m_size_list\<close> point to objects, \<^verbatim>\<open>m_size_list\<close> is sorted
  ascending on \<^verbatim>\<open>m_allocated\<close> (the comment on its declaration), and every key of
  \<^verbatim>\<open>m_buffers\<close> is in \<^verbatim>\<open>m_size_list\<close>.
\<close>

definition pool_wf :: "Pool \<Rightarrow> bool" where
  "pool_wf s =
     (m_initialized s
      \<and> (\<forall>p \<in> set (m_size_list s). p < length (heap s))
      \<and> sorted (map (\<lambda>p. m_allocated (heap s ! p)) (m_size_list s))
      \<and> (\<forall>p < length (heap s). m_buffers s p \<noteq> None \<longrightarrow> p \<in> set (m_size_list s)))"

text \<open>A record of the free index that an acquisition of \<open>n\<close> bytes may reuse.\<close>

definition reusable :: "32 word \<Rightarrow> Pool \<Rightarrow> nat \<Rightarrow> bool" where
  "reusable n s p = (\<not> m_in_use (heap s ! p) \<and> n \<le> m_allocated (heap s ! p))"

text \<open>The number of \<^verbatim>\<open>Buffer\<close> objects whose \<^verbatim>\<open>m_in_use\<close> is set.\<close>

definition records_in_use :: "Pool \<Rightarrow> nat" where
  "records_in_use s = length (filter m_in_use (heap s))"

text \<open>
  Pools of the scenario of the specification: the pool after \<^verbatim>\<open>initialize()\<close>, after
  a first acquisition of 100 bytes, after the release of that buffer, and after a second
  acquisition of 50 bytes.
\<close>

definition pool_ready :: Pool where
  "pool_ready = initialize static_init"

definition buffer_A :: Buffer where
  "buffer_A = \<lparr>m_in_use = True, m_data_size = 100, m_allocated = 100,
     m_usage_count = 1, m_last_used = 0, m_buffer = Some (replicate 100 (Some 0))\<rparr>"

definition pool_A :: Pool where
  "pool_A = \<lparr>heap = [buffer_A], m_cleanup_timeout = 0, m_last_cleanup_check = 0,
     m_policies = {ZeroBuffer}, m_buffers = Map.empty(0 \<mapsto> True), m_buffers_in_use = 1,
     m_size_list = [0], m_initialized = True\<rparr>"

definition pool_A_released :: Pool where
  "pool_A_released = pool_A\<lparr>heap := [buffer_A\<lparr>m_in_use := False, m_last_used := 6\<rparr>],
     m_buffers_in_use := 0\<rparr>"

definition pool_B :: Pool where
  "pool_B = pool_A\<lparr>heap := [buffer_A\<lparr>m_data_size := 50, m_usage_count := 2, m_last_used := 6\<rparr>]\<rparr>"

text \<open>
  A pool for the sweep: timeout 5 seconds; record 0 is in use, record 1 was released at
  time 1 and record 2 at time 9.
\<close>

definition pool_gc :: Pool where
  "pool_gc = \<lparr>heap =
       [\<lparr>m_in_use = True, m_data_size = 10, m_allocated = 10, m_usage_count = 1,
          m_last_used = 0, m_buffer = Some (replicate 10 (Some 0))\<rparr>,
        \<lparr>m_in_use = False, m_data_size = 20, m_allocated = 20, m_usage_count = 1,
          m_last_used = 1, m_buffer = Some (replicate 20 (Some 0))\<rparr>,
        \<lparr>m_in_use = False, m_data_size = 30, m_allocated = 30, m_usage_count = 1,
          m_last_used = 9, m_buffer = Some (replicate 30 (Some 0))\<rparr>],
     m_cleanup_timeout = 5, m_last_cleanup_check = 0,
     m_policies = {ZeroBuffer, DropOld},
     m_buffers = Map.empty(0 \<mapsto> True, 1 \<mapsto> True, 2 \<mapsto> True), m_buffers_in_use = 1,
     m_size_list = [0, 1, 2], m_initialized = True\<rparr>"

text \<open>The pool after \<^verbatim>\<open>initialize()\<close> and an acquisition of 0 bytes.\<close>

definition pool_Z :: Pool where
  "pool_Z = \<lparr>heap = [\<lparr>m_in_use = True, m_data_size = 0, m_allocated = 0,
        m_usage_count = 1, m_last_used = 0, m_buffer = Some []\<rparr>],
     m_cleanup_timeout = 0, m_last_cleanup_check = 0,
     m_policies = {ZeroBuffer}, m_buffers = Map.empty(0 \<mapsto> True), m_buffers_in_use = 1,
     m_size_list = [0], m_initialized = True\<rparr>"

text \<open>The pool after releasing the 100-byte buffer of the scenario a second time.\<close>

definition pool_A_released_twice :: Pool where
  "pool_A_released_twice = pool_A_released\<lparr>m_buffers_in_use := - 1\<rparr>"

text \<open>
  The pool \<open>pool_gc\<close> after an acquisition of 50 bytes at time 10: no record fits, a
  fourth one is allocated, the sweep runs and drops record 1.
\<close>

definition pool_gc_swept :: Pool where
  "pool_gc_swept = pool_gc\<lparr>
     heap := heap pool_gc @ [fresh_buffer {ZeroBuffer, DropOld} 50],
     m_last_cleanup_check := 10,
     m_buffers := Map.empty(0 \<mapsto> True, 2 \<mapsto> True, 3 \<mapsto> True),
     m_buffers_in_use := 2,
     m_size_list := [0, 2, 3]\<rparr>"

text \<open>
  The handles of a list released one call of \<open>release_buffer\<close> after the other, in
  the order of the list.
\<close>

fun release_each :: "BufferPtr list \<Rightarrow> time_t \<Rightarrow> Pool \<Rightarrow> error + Pool" where
  "release_each [] now s = Inr s"
| "release_each (h # hs) now s =
     (case release_buffer h now s of Inl e \<Rightarrow> Inl e | Inr (ok, s') \<Rightarrow> release_each hs now s')"

text \<open>
  The pool of the scenario after \<open>reset\<close>, whose first record the caller still holds
  handle 0 of, then released: by \<open>release_buffers [Some 0]\<close>, and by
  \<open>release_buffer (Some 0)\<close>.
\<close>

definition pool_A_reset_batch :: Pool where
  "pool_A_reset_batch = pool_A\<lparr>heap := [(Buffer_reset buffer_A)\<lparr>m_last_used := 6\<rparr>],
     m_buffers := Map.empty, m_buffers_in_use := 0\<rparr>"

definition pool_A_reset_single :: Pool where
  "pool_A_reset_single = pool_A_reset_batch\<lparr>m_buffers := Map.empty(0 \<mapsto> True)\<rparr>"

text \<open>The record a release leaves.\<close>

definition released :: "time_t \<Rightarrow> Buffer \<Rightarrow> Buffer" where
  "released now b = b\<lparr>m_in_use := False, m_last_used := now\<rparr>"

text \<open>
  What holds of every pool the operations lead to, beyond \<open>pool_wf\<close>: the free index
  has no handle twice, every record in use is in the free index, and a record of the
  free index that is no key of the registry has capacity 0 (it went through \<open>reset\<close>).
\<close>

definition pool_inv :: "Pool \<Rightarrow> bool" where
  "pool_inv s =
     (pool_wf s
      \<and> distinct (m_size_list s)
      \<and> (\<forall>p < length (heap s). m_in_use (heap s ! p) \<longrightarrow> p \<in> set (m_size_list s))
      \<and> (\<forall>p \<in> set (m_size_list s). m_buffers s p = None \<longrightarrow> m_allocated (heap s ! p) = 0))"

text \<open>The counter agrees with the flags.\<close>

definition count_ok :: "Pool \<Rightarrow> bool" where
  "count_ok s = (m_buffers_in_use s = int (records_in_use s))"

text \<open>
  The pools that calls of the interface lead to from the static initial state, with the
  release operations of lines 292-371. The flag tells whether \<open>reset\<close> may be among
  the calls.
\<close>

inductive reachable :: "bool \<Rightarrow> Pool \<Rightarrow> bool" where
  reach_initialize: "reachable r (initialize static_init)"
| reach_initialize_again: "reachable r s \<Longrightarrow> reachable r (initialize s)"
| reach_set_cleanup_timeout: "reachable r s \<Longrightarrow> reachable r (set_cleanup_timeout seconds now s)"
| reach_set_policy: "reachable r s \<Longrightarrow> reachable r (set_policy p s)"
| reach_set_policies: "reachable r s \<Longrightarrow> reachable r (set_policies ps s)"
| reach_clear_policy: "reachable r s \<Longrightarrow> reachable r (clear_policy p s)"
| reach_reset: "reachable True s \<Longrightarrow> reachable True (reset s)"
| reach_single_buffer:
    "reachable r s \<Longrightarrow> single_buffer n now s = Inr (h, s') \<Longrightarrow> reachable r s'"
| reach_release_buffer:
    "reachable r s \<Longrightarrow> reachable r (snd (release_buffer_checked h now s))"
| reach_release_buffers:
    "reachable r s \<Longrightarrow> reachable r (snd (release_buffers_checked hs now s))"

text \<open>
  What every operation of either revision keeps of the free index: \<^verbatim>\<open>initialize\<close> has
  run, the handles of the index point to objects, the index is sorted ascending on
  \<^verbatim>\<open>m_allocated\<close> and holds no handle twice, and a record of the index that is no key
  of the registry has capacity 0.
\<close>

definition index_inv :: "Pool \<Rightarrow> bool" where
  "index_inv s =
     (m_initialized s
      \<and> (\<forall>p \<in> set (m_size_list s). p < length (heap s))
      \<and> sorted (map (\<lambda>p. m_allocated (heap s ! p)) (m_size_list s))
      \<and> distinct (m_size_list s)
      \<and> (\<forall>p \<in> set (m_size_list s). m_buffers s p = None \<longrightarrow> m_allocated (heap s ! p) = 0))"

text \<open>
  The pools that calls of the interface lead to from the static initial state, with
  the release operations of both revisions. \<^verbatim>\<open>std::sort\<close> may leave records of equal
  capacity in any order, so every sorted arrangement of the free index counts as well.
\<close>

inductive reachable_api :: "Pool \<Rightarrow> bool" where
  api_initialize: "reachable_api (initialize static_init)"
| api_initialize_again: "reachable_api s \<Longrightarrow> reachable_api (initialize s)"
| api_set_cleanup_timeout: "reachable_api s \<Longrightarrow> reachable_api (set_cleanup_timeout seconds now s)"
| api_set_policy: "reachable_api s \<Longrightarrow> reachable_api (set_policy p s)"
| api_set_policies: "reachable_api s \<Longrightarrow> reachable_api (set_policies ps s)"
| api_clear_policy: "reachable_api s \<Longrightarrow> reachable_api (clear_policy p s)"
| api_reset: "reachable_api s \<Longrightarrow> reachable_api (reset s)"
| api_single_buffer:
    "reachable_api s \<Longrightarrow> single_buffer n now s = Inr (h, s') \<Longrightarrow> reachable_api s'"
| api_release_buffer:
    "reachable_api s \<Longrightarrow> release_buffer h now s = Inr (ok, s') \<Longrightarrow> reachable_api s'"
| api_release_buffers:
    "reachable_api s \<Longrightarrow> release_buffers hs now s = Inr (ok, s') \<Longrightarrow> reachable_api s'"
| api_release_buffer_checked:
    "reachable_api s \<Longrightarrow> reachable_api (snd (release_buffer_checked h now s))"
| api_release_buffers_checked:
    "reachable_api s \<Longrightarrow> reachable_api (snd (release_buffers_checked hs now s))"
| api_sort_order:
    "reachable_api s \<Longrightarrow> distinct xs \<Longrightarrow> set xs = set (m_size_list s)
       \<Longrightarrow> sorted (map (\<lambda>p. m_allocated (heap s ! p)) xs)
       \<Longrightarrow> reachable_api (s\<lparr>m_size_list := xs\<rparr>)"

text \<open>
  Pools of a run with the release of lines 548-559 and a timeout of 5 seconds: after
  acquisitions of 10 and 20 bytes at time 0 and the release of the second buffer at
  time 1; after an acquisition of 50 bytes at time 10, whose sweep evicts that buffer;
  and after the caller releases the evicted buffer once more, at time 11.
\<close>

definition pool_idle :: Pool where
  "pool_idle = \<lparr>heap =
       [fresh_buffer {ZeroBuffer, DropOld} 10,
        (fresh_buffer {ZeroBuffer, DropOld} 20)\<lparr>m_in_use := False, m_last_used := 1\<rparr>],
     m_cleanup_timeout = 5, m_last_cleanup_check = 0,
     m_policies = {ZeroBuffer, DropOld},
     m_buffers = Map.empty(0 \<mapsto> True, 1 \<mapsto> True), m_buffers_in_use = 1,
     m_size_list = [0, 1], m_initialized = True\<rparr>"

definition pool_evicted :: Pool where
  "pool_evicted = pool_idle\<lparr>
     heap := heap pool_idle @ [fresh_buffer {ZeroBuffer, DropOld} 50],
     m_last_cleanup_check := 10,
     m_buffers := Map.empty(0 \<mapsto> True, 2 \<mapsto> True),
     m_buffers_in_use := 2,
     m_size_list := [0, 2]\<rparr>"

definition pool_stale :: Pool where
  "pool_stale = pool_evicted\<lparr>
     heap := [fresh_buffer {ZeroBuffer, DropOld} 10,
        (fresh_buffer {ZeroBuffer, DropOld} 20)\<lparr>m_in_use := False, m_last_used := 11\<rparr>,
        fresh_buffer {ZeroBuffer, DropOld} 50],
     m_buffers := Map.empty(0 \<mapsto> True, 1 \<mapsto> True, 2 \<mapsto> True),
     m_buffers_in_use := 1\<rparr>"

section \<open>The search of the free index\<close>

declare lower_bound_from.simps [simp del]
declare skip_in_use.simps [simp del]


lemma lower_bound_from_range:
  "first \<le> lower_bound_from lt xs first len \<and> lower_bound_from lt xs first len \<le> first + len"
proof (induction lt xs first len rule: lower_bound_from.induct)
  case (1 lt xs first len)
  show ?case
  proof (cases "len = 0")
    case True
    then show ?thesis by (subst lower_bound_from.simps, subst (2) lower_bound_from.simps) simp
  next
    case False
    show ?thesis
    proof (cases "lt (xs ! (first + len div 2))")
      case True
      have eq: "lower_bound_from lt xs first len
            = lower_bound_from lt xs (first + len div 2 + 1) (len - len div 2 - 1)"
        using False True by (subst lower_bound_from.simps) (simp add: Let_def)
      from False 1(1)[OF False refl refl True] show ?thesis
        unfolding eq by linarith
    next
      case nlt: False
      have eq: "lower_bound_from lt xs first len = lower_bound_from lt xs first (len div 2)"
        using False nlt by (subst lower_bound_from.simps) (simp add: Let_def)
      from False 1(2)[OF False refl refl nlt] show ?thesis
        unfolding eq by linarith
    qed
  qed
qed


lemma lower_bound_from_partition:
  assumes "\<forall>i j. first \<le> i \<and> i \<le> j \<and> j < first + len \<and> lt (xs ! j) \<longrightarrow> lt (xs ! i)"
  shows "(\<forall>i. first \<le> i \<and> i < lower_bound_from lt xs first len \<longrightarrow> lt (xs ! i))
       \<and> (\<forall>i. lower_bound_from lt xs first len \<le> i \<and> i < first + len \<longrightarrow> \<not> lt (xs ! i))"
  using assms
proof (induction lt xs first len rule: lower_bound_from.induct)
  case (1 lt xs first len)
  show ?case
  proof (cases "len = 0")
    case True
    have eq: "lower_bound_from lt xs first len = first"
      using True by (subst lower_bound_from.simps) simp
    show ?thesis unfolding eq using True by auto
  next
    case False
    let ?m = "first + len div 2"
    have hl: "len div 2 < len" using False by simp
    have mono: "lt (xs ! i)" if "first \<le> i" "i \<le> j" "j < first + len" "lt (xs ! j)" for i j
      using 1(3) that by blast
    show ?thesis
    proof (cases "lt (xs ! ?m)")
      case True
      have below: "lt (xs ! i)" if "first \<le> i" "i \<le> ?m" for i
        using mono[of i ?m] that True hl by simp
      have part: "\<forall>i j. ?m + 1 \<le> i \<and> i \<le> j \<and> j < ?m + 1 + (len - len div 2 - 1)
            \<and> lt (xs ! j) \<longrightarrow> lt (xs ! i)"
      proof (intro allI impI)
        fix i j
        assume h: "?m + 1 \<le> i \<and> i \<le> j \<and> j < ?m + 1 + (len - len div 2 - 1) \<and> lt (xs ! j)"
        then have "first \<le> i" "i \<le> j" "j < first + len" "lt (xs ! j)" using hl by auto
        then show "lt (xs ! i)" by (rule mono)
      qed
      note ih = 1(1)[OF False refl refl True part]
      have eq: "lower_bound_from lt xs first len
            = lower_bound_from lt xs (?m + 1) (len - len div 2 - 1)"
        using False True by (subst lower_bound_from.simps) (simp add: Let_def)
      have e: "?m + 1 + (len - len div 2 - 1) = first + len" using hl by simp
      have a: "lt (xs ! i)" if "first \<le> i" "i < lower_bound_from lt xs (?m + 1) (len - len div 2 - 1)" for i
      proof (cases "i \<le> ?m")
        case True
        then show ?thesis using below that by blast
      next
        case False
        then have "?m + 1 \<le> i" by simp
        then show ?thesis using ih that by blast
      qed
      have b: "\<not> lt (xs ! i)" if "lower_bound_from lt xs (?m + 1) (len - len div 2 - 1) \<le> i" "i < first + len" for i
        using ih that e by simp
      show ?thesis unfolding eq using a b by blast
    next
      case nlt: False
      have above: "\<not> lt (xs ! j)" if "?m \<le> j" "j < first + len" for j
        using mono[of ?m j] that nlt by auto
      have part: "\<forall>i j. first \<le> i \<and> i \<le> j \<and> j < first + len div 2
            \<and> lt (xs ! j) \<longrightarrow> lt (xs ! i)"
      proof (intro allI impI)
        fix i j
        assume h: "first \<le> i \<and> i \<le> j \<and> j < first + len div 2 \<and> lt (xs ! j)"
        then have "first \<le> i" "i \<le> j" "j < first + len" "lt (xs ! j)" using hl by auto
        then show "lt (xs ! i)" by (rule mono)
      qed
      note ih = 1(2)[OF False refl refl nlt part]
      have eq: "lower_bound_from lt xs first len = lower_bound_from lt xs first (len div 2)"
        using False nlt by (subst lower_bound_from.simps) (simp add: Let_def)
      have b: "\<not> lt (xs ! i)" if "lower_bound_from lt xs first (len div 2) \<le> i" "i < first + len" for i
      proof (cases "i < ?m")
        case True
        then show ?thesis using ih that by blast
      next
        case False
        then show ?thesis using above that by simp
      qed
      show ?thesis unfolding eq using ih b by blast
    qed
  qed
qed

lemma skip_in_use_spec:
  "i \<le> skip_in_use hp xs i
   \<and> (i \<le> length xs \<longrightarrow> skip_in_use hp xs i \<le> length xs)
   \<and> (\<forall>k. i \<le> k \<and> k < skip_in_use hp xs i \<longrightarrow> m_in_use (hp ! (xs ! k)))
   \<and> (skip_in_use hp xs i < length xs \<longrightarrow> \<not> m_in_use (hp ! (xs ! skip_in_use hp xs i)))"
proof (induction hp xs i rule: skip_in_use.induct)
  case (1 hp xs i)
  show ?case
  proof (cases "i < length xs \<and> m_in_use (hp ! (xs ! i))")
    case True
    have eq: "skip_in_use hp xs i = skip_in_use hp xs (i + 1)"
      using True by (subst skip_in_use.simps) simp
    have a: "m_in_use (hp ! (xs ! k))" if "i \<le> k" "k < skip_in_use hp xs (i + 1)" for k
    proof (cases "k = i")
      case True
      then show ?thesis using \<open>i < length xs \<and> m_in_use (hp ! (xs ! i))\<close> by simp
    next
      case False
      then have "i + 1 \<le> k" using that by simp
      then show ?thesis using 1[OF True] that by blast
    qed
    show ?thesis unfolding eq using 1[OF True] True a by auto
  next
    case False
    have eq: "skip_in_use hp xs i = i"
      using False by (subst skip_in_use.simps) auto
    show ?thesis unfolding eq using False by auto
  qed
qed

lemma find_free_spec:
  assumes srt: "sorted (map (\<lambda>p. m_allocated (heap s ! p)) (m_size_list s))"
  shows "find_free n s \<le> length (m_size_list s)
     \<and> (find_free n s < length (m_size_list s) \<longrightarrow> reusable n s (m_size_list s ! find_free n s))
     \<and> (\<forall>k < find_free n s. \<not> reusable n s (m_size_list s ! k))"
proof -
  let ?xs = "m_size_list s"
  let ?lt = "\<lambda>p. m_allocated (heap s ! p) < n"
  let ?lb = "lower_bound ?lt ?xs"
  have part: "\<forall>i j. 0 \<le> i \<and> i \<le> j \<and> j < 0 + length ?xs \<and> ?lt (?xs ! j) \<longrightarrow> ?lt (?xs ! i)"
  proof (intro allI impI)
    fix i j
    assume h: "0 \<le> i \<and> i \<le> j \<and> j < 0 + length ?xs \<and> ?lt (?xs ! j)"
    then have "map (\<lambda>p. m_allocated (heap s ! p)) ?xs ! i \<le> map (\<lambda>p. m_allocated (heap s ! p)) ?xs ! j"
      using srt by (intro sorted_nth_mono) auto
    then have "m_allocated (heap s ! (?xs ! i)) \<le> m_allocated (heap s ! (?xs ! j))"
      using h by simp
    moreover have "m_allocated (heap s ! (?xs ! j)) < n" using h by simp
    ultimately show "?lt (?xs ! i)" by (rule le_less_trans)
  qed
  have lb_le: "?lb \<le> length ?xs"
    using lower_bound_from_range[of 0 ?lt ?xs "length ?xs"] by (simp add: lower_bound_def)
  have lb_below: "\<forall>i. i < ?lb \<longrightarrow> ?lt (?xs ! i)"
    and lb_above: "\<forall>i. ?lb \<le> i \<and> i < length ?xs \<longrightarrow> \<not> ?lt (?xs ! i)"
    using lower_bound_from_partition[OF part] by (simp_all add: lower_bound_def)
  have ff: "find_free n s = skip_in_use (heap s) ?xs ?lb" by (simp add: find_free_def)
  note sk = skip_in_use_spec[of ?lb "heap s" ?xs]
  have 1: "find_free n s \<le> length ?xs" using sk lb_le ff by simp
  have 2: "reusable n s (?xs ! find_free n s)" if "find_free n s < length ?xs"
  proof -
    have "?lb \<le> find_free n s" using sk ff by simp
    then have "\<not> ?lt (?xs ! find_free n s)" using lb_above that by blast
    moreover have "\<not> m_in_use (heap s ! (?xs ! find_free n s))" using sk ff that by simp
    ultimately show ?thesis by (simp add: reusable_def)
  qed
  have 3: "\<not> reusable n s (?xs ! k)" if "k < find_free n s" for k
  proof (cases "k < ?lb")
    case True
    then have "?lt (?xs ! k)" using lb_below by blast
    then show ?thesis by (auto simp: reusable_def)
  next
    case False
    then have "m_in_use (heap s ! (?xs ! k))" using sk ff that by simp
    then show ?thesis by (simp add: reusable_def)
  qed
  from 1 2 3 show ?thesis by blast
qed

lemma filter_remove1_other:
  "filter (\<lambda>q. q \<noteq> p \<and> P q) (remove1 p xs) = filter (\<lambda>q. q \<noteq> p \<and> P q) xs"
  by (induction xs) auto

lemma drop_buffers_result:
  "drop_buffers ps s = Inr s' \<Longrightarrow>
     heap s' = heap s \<and> m_cleanup_timeout s' = m_cleanup_timeout s
     \<and> m_last_cleanup_check s' = m_last_cleanup_check s \<and> m_policies s' = m_policies s
     \<and> m_buffers_in_use s' = m_buffers_in_use s \<and> m_initialized s' = m_initialized s
     \<and> m_buffers s' = (\<lambda>p. if p \<in> set ps then None else m_buffers s p)
     \<and> set (m_size_list s') \<subseteq> set (m_size_list s)
     \<and> filter (\<lambda>q. q \<notin> set ps) (m_size_list s') = filter (\<lambda>q. q \<notin> set ps) (m_size_list s)
     \<and> (sorted (map f (m_size_list s)) \<longrightarrow> sorted (map f (m_size_list s')))
     \<and> (distinct (m_size_list s) \<longrightarrow>
          distinct (m_size_list s') \<and> set (m_size_list s') = set (m_size_list s) - set ps)"
proof (induction ps arbitrary: s)
  case Nil
  then show ?case by auto
next
  case (Cons p ps)
  let ?s1 = "s\<lparr>m_buffers := (m_buffers s)(p := None), m_size_list := remove1 p (m_size_list s)\<rparr>"
  from Cons.prems have mem: "p \<in> set (m_size_list s)" and run: "drop_buffers ps ?s1 = Inr s'"
    by (auto split: if_splits)
  note ih = Cons.IH[OF run]
  have f1: "filter (\<lambda>q. q \<notin> set (p # ps)) (remove1 p (m_size_list s))
          = filter (\<lambda>q. q \<notin> set (p # ps)) (m_size_list s)"
    using filter_remove1_other[of p "\<lambda>q. q \<notin> set ps" "m_size_list s"] by simp
  have a: "m_buffers s' = (\<lambda>q. if q \<in> set (p # ps) then None else m_buffers s q)"
    using ih by (auto simp: fun_eq_iff)
  have b: "set (m_size_list s') \<subseteq> set (m_size_list s)"
    using ih set_remove1_subset[of p "m_size_list s"] by auto
  have c: "filter (\<lambda>q. q \<notin> set (p # ps)) (m_size_list s')
         = filter (\<lambda>q. q \<notin> set (p # ps)) (m_size_list s)"
  proof -
    have "filter (\<lambda>q. q \<notin> set ps) (m_size_list s') = filter (\<lambda>q. q \<notin> set ps) (remove1 p (m_size_list s))"
      using ih by simp
    then have "filter (\<lambda>q. q \<noteq> p) (filter (\<lambda>q. q \<notin> set ps) (m_size_list s'))
        = filter (\<lambda>q. q \<noteq> p) (filter (\<lambda>q. q \<notin> set ps) (remove1 p (m_size_list s)))"
      by simp
    then have "filter (\<lambda>q. q \<notin> set (p # ps)) (m_size_list s')
        = filter (\<lambda>q. q \<notin> set (p # ps)) (remove1 p (m_size_list s))"
      by (simp add: conj_commute)
    then show ?thesis using f1 by simp
  qed
  have d: "sorted (map f (m_size_list s)) \<longrightarrow> sorted (map f (m_size_list s'))"
    using ih sorted_map_remove1[of f "m_size_list s" p] by simp
  have e: "distinct (m_size_list s) \<longrightarrow>
          distinct (m_size_list s') \<and> set (m_size_list s') = set (m_size_list s) - set (p # ps)"
    using ih by auto
  from ih a b c d e show ?case by simp
qed

lemma drop_buffers_ok:
  "distinct ps \<Longrightarrow> set ps \<subseteq> set (m_size_list s) \<Longrightarrow> \<exists>s'. drop_buffers ps s = Inr s'"
proof (induction ps arbitrary: s)
  case Nil
  then show ?case by simp
next
  case (Cons p ps)
  let ?s1 = "s\<lparr>m_buffers := (m_buffers s)(p := None), m_size_list := remove1 p (m_size_list s)\<rparr>"
  have "set ps \<subseteq> set (m_size_list ?s1)"
  proof
    fix x assume x: "x \<in> set ps"
    then have "x \<noteq> p" "x \<in> set (m_size_list s)" using Cons.prems by auto
    then show "x \<in> set (m_size_list ?s1)" by simp
  qed
  then have "\<exists>s'. drop_buffers ps ?s1 = Inr s'"
    using Cons.IH[of ?s1] Cons.prems by simp
  then show ?case using Cons.prems by simp
qed

lemma set_buffers_to_drop:
  "set (buffers_to_drop t s) = {p. p < length (heap s) \<and> m_buffers s p \<noteq> None \<and> too_old t s p}"
  by (auto simp: buffers_to_drop_def)

lemma garbage_collect_ok:
  assumes "\<forall>p < length (heap s). m_buffers s p \<noteq> None \<longrightarrow> p \<in> set (m_size_list s)"
  shows "\<exists>s'. garbage_collect t s = Inr s'"
proof -
  have "distinct (buffers_to_drop t s)" by (simp add: buffers_to_drop_def)
  moreover have "set (buffers_to_drop t s) \<subseteq> set (m_size_list s)"
    using assms by (auto simp: set_buffers_to_drop)
  ultimately show ?thesis unfolding garbage_collect_def by (rule drop_buffers_ok)
qed

lemma garbage_collect_result:
  assumes "garbage_collect t s = Inr s'"
  shows "heap s' = heap s" "m_cleanup_timeout s' = m_cleanup_timeout s"
    "m_last_cleanup_check s' = m_last_cleanup_check s" "m_policies s' = m_policies s"
    "m_buffers_in_use s' = m_buffers_in_use s" "m_initialized s' = m_initialized s"
    "m_buffers s' = (\<lambda>p. if p \<in> set (buffers_to_drop t s) then None else m_buffers s p)"
    "set (m_size_list s') \<subseteq> set (m_size_list s)"
    "filter (\<lambda>q. q \<notin> set (buffers_to_drop t s)) (m_size_list s')
       = filter (\<lambda>q. q \<notin> set (buffers_to_drop t s)) (m_size_list s)"
    "sorted (map f (m_size_list s)) \<Longrightarrow> sorted (map f (m_size_list s'))"
    "distinct (m_size_list s) \<Longrightarrow> distinct (m_size_list s')"
    "distinct (m_size_list s) \<Longrightarrow> set (m_size_list s') = set (m_size_list s) - set (buffers_to_drop t s)"
  using drop_buffers_result[OF assms[unfolded garbage_collect_def], of f] by blast+

lemma garbage_collect_keeps:
  assumes "garbage_collect t s = Inr s'" "q \<in> set (m_size_list s)" "q \<notin> set (buffers_to_drop t s)"
  shows "q \<in> set (m_size_list s')"
proof -
  have "q \<in> set (filter (\<lambda>q. q \<notin> set (buffers_to_drop t s)) (m_size_list s))"
    using assms by simp
  then have "q \<in> set (filter (\<lambda>q. q \<notin> set (buffers_to_drop t s)) (m_size_list s'))"
    using garbage_collect_result(9)[OF assms(1)] by simp
  then show ?thesis by simp
qed

lemma single_buffer_reuse:
  assumes "m_initialized s" "find_free n s < length (m_size_list s)"
    "n \<le> m_allocated (heap s ! (m_size_list s ! find_free n s))"
  shows "single_buffer n now s
       = Inr (Some (m_size_list s ! find_free n s), take_buffer n (m_size_list s ! find_free n s) s)"
  using assms by (simp add: single_buffer_def single_buffer_unprotected_def Let_def)

lemma single_buffer_fresh:
  assumes "m_initialized s" "\<not> find_free n s < length (m_size_list s)"
  shows "single_buffer n now s
       = (if cleanup_due now (new_buffer n s)
          then (case garbage_collect now ((new_buffer n s)\<lparr>m_last_cleanup_check := now\<rparr>) of
                  Inl e \<Rightarrow> Inl e | Inr s2 \<Rightarrow> Inr (Some (length (heap s)), s2))
          else Inr (Some (length (heap s)), new_buffer n s))"
  using assms by (simp add: single_buffer_def single_buffer_unprotected_def Let_def)

lemma new_buffer_fields:
  "heap (new_buffer n s) = heap s @ [fresh_buffer (m_policies s) n]"
  "m_buffers (new_buffer n s) = (m_buffers s)(length (heap s) \<mapsto> True)"
  "m_buffers_in_use (new_buffer n s) = m_buffers_in_use s + 1"
  "m_size_list (new_buffer n s)
     = sort_by_allocated (heap s @ [fresh_buffer (m_policies s) n]) (m_size_list s @ [length (heap s)])"
  "m_policies (new_buffer n s) = m_policies s"
  "m_cleanup_timeout (new_buffer n s) = m_cleanup_timeout s"
  "m_last_cleanup_check (new_buffer n s) = m_last_cleanup_check s"
  "m_initialized (new_buffer n s) = m_initialized s"
  by (simp_all add: new_buffer_def Let_def)

lemma set_new_buffer_size_list:
  "set (m_size_list (new_buffer n s)) = insert (length (heap s)) (set (m_size_list s))"
  by (simp add: new_buffer_fields sort_by_allocated_def)

lemma fresh_buffer_fields:
  "m_in_use (fresh_buffer pol n)" "m_data_size (fresh_buffer pol n) = n"
  "m_allocated (fresh_buffer pol n) = n"
  by (simp_all add: fresh_buffer_def Buffer_new_def)

text \<open>The sweep after a fresh allocation finds every buffer it drops.\<close>

lemma new_buffer_registry:
  assumes "\<forall>p < length (heap s). m_buffers s p \<noteq> None \<longrightarrow> p \<in> set (m_size_list s)"
  shows "\<forall>p < length (heap (new_buffer n s)). m_buffers (new_buffer n s) p \<noteq> None
           \<longrightarrow> p \<in> set (m_size_list (new_buffer n s))"
  using assms by (auto simp: set_new_buffer_size_list new_buffer_fields(1,2) less_Suc_eq)

text \<open>What an acquisition returns on a well-formed pool, on either branch.\<close>

lemma single_buffer_post:
  assumes wf: "pool_wf s"
  shows "\<exists>p s'. single_buffer n now s = Inr (Some p, s') \<and> p < length (heap s')
           \<and> n \<le> m_allocated (heap s' ! p) \<and> m_in_use (heap s' ! p)
           \<and> m_data_size (heap s' ! p) = n"
proof (cases "find_free n s < length (m_size_list s)")
  case True
  let ?p = "m_size_list s ! find_free n s"
  have srt: "sorted (map (\<lambda>p. m_allocated (heap s ! p)) (m_size_list s))"
    using wf by (simp add: pool_wf_def)
  have r: "reusable n s ?p" using find_free_spec[OF srt, of n] True by blast
  have v: "?p < length (heap s)" using wf True by (simp add: pool_wf_def)
  have "single_buffer n now s = Inr (Some ?p, take_buffer n ?p s)"
    using wf r True by (intro single_buffer_reuse) (simp_all add: pool_wf_def reusable_def)
  moreover have "?p < length (heap (take_buffer n ?p s))" using v by (simp add: take_buffer_def)
  moreover have "n \<le> m_allocated (heap (take_buffer n ?p s) ! ?p)"
    "m_in_use (heap (take_buffer n ?p s) ! ?p)" "m_data_size (heap (take_buffer n ?p s) ! ?p) = n"
    using v r by (simp_all add: take_buffer_def reusable_def)
  ultimately show ?thesis by blast
next
  case False
  let ?p = "length (heap s)"
  let ?s1 = "new_buffer n s"
  have init: "m_initialized s" using wf by (simp add: pool_wf_def)
  have rec: "heap ?s1 ! ?p = fresh_buffer (m_policies s) n" by (simp add: new_buffer_fields)
  have len: "?p < length (heap ?s1)" by (simp add: new_buffer_fields)
  show ?thesis
  proof (cases "cleanup_due now ?s1")
    case nogc: False
    have "single_buffer n now s = Inr (Some ?p, ?s1)"
      using single_buffer_fresh[OF init False, of now] nogc by simp
    then show ?thesis using rec len by (auto simp: fresh_buffer_fields)
  next
    case gc: True
    let ?s1' = "?s1\<lparr>m_last_cleanup_check := now\<rparr>"
    have "\<forall>p < length (heap ?s1'). m_buffers ?s1' p \<noteq> None \<longrightarrow> p \<in> set (m_size_list ?s1')"
      using new_buffer_registry[of s n] wf by (simp add: pool_wf_def)
    then obtain s2 where s2: "garbage_collect now ?s1' = Inr s2"
      using garbage_collect_ok by blast
    have "single_buffer n now s = Inr (Some ?p, s2)"
      using single_buffer_fresh[OF init False, of now] gc s2 by simp
    moreover have "heap s2 = heap ?s1" using garbage_collect_result(1)[OF s2] by simp
    ultimately show ?thesis using rec len by (auto simp: fresh_buffer_fields)
  qed
qed

lemma find_free_Nil: "m_size_list s = [] \<Longrightarrow> find_free n s = 0"
  by (simp add: find_free_def lower_bound_def lower_bound_from.simps skip_in_use.simps)

lemma scenario_A: "single_buffer 100 5 pool_ready = Inr (Some 0, pool_A)"
  by (simp add: single_buffer_def single_buffer_unprotected_def pool_ready_def initialize_def
      static_init_def find_free_Nil new_buffer_def cleanup_due_def Let_def fresh_buffer_def Buffer_new_def
      sort_by_allocated_def pool_A_def buffer_A_def)

lemma scenario_A_released: "release_buffer (Some 0) 6 pool_A = Inr (True, pool_A_released)"
  by (simp add: release_buffer_def deref_def pool_A_def pool_A_released_def)

lemma pool_wf_A_released: "pool_wf pool_A_released"
  by (simp add: pool_wf_def pool_A_released_def pool_A_def)

lemma scenario_B: "single_buffer 50 7 pool_A_released = Inr (Some 0, pool_B)"
  by (simp add: single_buffer_def single_buffer_unprotected_def pool_A_released_def pool_A_def
      find_free_def lower_bound_def lower_bound_from.simps skip_in_use.simps buffer_A_def
      Let_def take_buffer_def pool_B_def)

section \<open>Acquisition on a well-formed pool\<close>

text \<open>The search policy of an acquisition, for every size, zero included.\<close>

lemma single_buffer_first_fit:
  assumes wf: "pool_wf s"
  shows "\<exists>p s'. single_buffer n now s = Inr (Some p, s') \<and>
     (if \<exists>q \<in> set (m_size_list s). reusable n s q
      then (\<exists>i < length (m_size_list s). m_size_list s ! i = p
              \<and> (\<forall>k < i. \<not> reusable n s (m_size_list s ! k)))
           \<and> reusable n s p
           \<and> (\<forall>q \<in> set (m_size_list s). reusable n s q
                 \<longrightarrow> m_allocated (heap s ! p) \<le> m_allocated (heap s ! q))
           \<and> heap s' = (heap s)[p := (heap s ! p)\<lparr>m_in_use := True, m_data_size := n,
                 m_usage_count := m_usage_count (heap s ! p) + 1\<rparr>]
           \<and> m_size_list s' = m_size_list s
           \<and> buffers_available s' = buffers_available s
      else p = length (heap s) \<and> p \<notin> set (m_size_list s)
           \<and> heap s' = heap s @ [fresh_buffer (m_policies s) n])"
proof -
  let ?xs = "m_size_list s"
  let ?i = "find_free n s"
  have srt: "sorted (map (\<lambda>p. m_allocated (heap s ! p)) ?xs)"
    and init: "m_initialized s" and valid: "\<forall>p \<in> set ?xs. p < length (heap s)"
    using wf by (simp_all add: pool_wf_def)
  note ff = find_free_spec[OF srt, of n]
  show ?thesis
  proof (cases "?i < length ?xs")
    case True
    let ?p = "?xs ! ?i"
    have r: "reusable n s ?p" using ff True by blast
    have run: "single_buffer n now s = Inr (Some ?p, take_buffer n ?p s)"
      using init r True by (intro single_buffer_reuse) (simp_all add: reusable_def)
    have ex: "\<exists>q \<in> set ?xs. reusable n s q" using r True nth_mem by blast
    have least: "m_allocated (heap s ! ?p) \<le> m_allocated (heap s ! q)"
      if q: "q \<in> set ?xs" "reusable n s q" for q
    proof -
      from q(1) obtain j where j: "j < length ?xs" "?xs ! j = q" by (auto simp: in_set_conv_nth)
      have "\<not> j < ?i" using ff j q(2) by blast
      then have "?i \<le> j" by simp
      then have "map (\<lambda>p. m_allocated (heap s ! p)) ?xs ! ?i \<le> map (\<lambda>p. m_allocated (heap s ! p)) ?xs ! j"
        using srt j(1) by (intro sorted_nth_mono) auto
      then show ?thesis using j True by simp
    qed
    have pos: "\<exists>i < length ?xs. ?xs ! i = ?p \<and> (\<forall>k < i. \<not> reusable n s (?xs ! k))"
      using True ff by blast
    have st: "heap (take_buffer n ?p s) = (heap s)[?p := (heap s ! ?p)\<lparr>m_in_use := True,
          m_data_size := n, m_usage_count := m_usage_count (heap s ! ?p) + 1\<rparr>]"
      "m_size_list (take_buffer n ?p s) = ?xs"
      "buffers_available (take_buffer n ?p s) = buffers_available s"
      by (simp_all add: take_buffer_def buffers_available_def)
    show ?thesis using run ex pos r least st by auto
  next
    case False
    let ?p = "length (heap s)"
    have none: "\<not> (\<exists>q \<in> set ?xs. reusable n s q)"
    proof
      assume "\<exists>q \<in> set ?xs. reusable n s q"
      then obtain j where j: "j < length ?xs" "reusable n s (?xs ! j)"
        by (auto simp: in_set_conv_nth)
      have "?i = length ?xs" using ff False by simp
      then show False using ff j by auto
    qed
    have fresh: "?p \<notin> set ?xs" using valid by auto
    obtain p s' where ps: "single_buffer n now s = Inr (Some p, s')"
      using single_buffer_post[OF wf, of n now] by blast
    have "p = ?p \<and> heap s' = heap s @ [fresh_buffer (m_policies s) n]"
    proof (cases "cleanup_due now (new_buffer n s)")
      case nogc: False
      then have "p = ?p" "s' = new_buffer n s"
        using ps single_buffer_fresh[OF init False, of now] by simp_all
      then show ?thesis by (simp add: new_buffer_fields)
    next
      case gc: True
      then obtain s2 where "garbage_collect now ((new_buffer n s)\<lparr>m_last_cleanup_check := now\<rparr>) = Inr s2"
         "p = ?p" "s' = s2"
        using ps single_buffer_fresh[OF init False, of now] by (auto split: sum.splits)
      then show ?thesis using garbage_collect_result(1) by (fastforce simp: new_buffer_fields)
    qed
    then show ?thesis using ps none fresh by auto
  qed
qed

section \<open>Eviction: what a sweep removes from a well-formed pool\<close>

text \<open>
  On a well-formed pool \<open>garbage_collect\<close> returns, and whatever it takes out of
  the registry \<open>m_buffers\<close> or out of the free index \<open>m_size_list\<close> is a record that is
  not in use and whose idle time, \<open>start_time - m_last_used\<close>, exceeds
  \<open>m_cleanup_timeout\<close>. The records themselves are untouched, the entries that stay
  in the registry keep their value, and the entries of the free index that do not
  qualify stay, in their order.
\<close>

lemma garbage_collect_wf:
  assumes wf: "pool_wf s"
  shows "\<exists>s'. garbage_collect start_time s = Inr s'
     \<and> (\<forall>p. (m_buffers s p \<noteq> None \<and> m_buffers s' p = None)
              \<or> (p \<in> set (m_size_list s) \<and> p \<notin> set (m_size_list s'))
          \<longrightarrow> \<not> m_in_use (heap s ! p)
              \<and> start_time - m_last_used (heap s ! p) > m_cleanup_timeout s)
     \<and> heap s' = heap s
     \<and> (\<forall>p. m_buffers s' p \<noteq> None \<longrightarrow> m_buffers s' p = m_buffers s p)
     \<and> set (m_size_list s') \<subseteq> set (m_size_list s)
     \<and> filter (\<lambda>p. \<not> too_old start_time s p) (m_size_list s')
         = filter (\<lambda>p. \<not> too_old start_time s p) (m_size_list s)"
proof -
  let ?d = "buffers_to_drop start_time s"
  obtain s' where s': "garbage_collect start_time s = Inr s'"
    using garbage_collect_ok[of s start_time] wf by (auto simp: pool_wf_def)
  note r = garbage_collect_result[OF s']
  have old: "too_old start_time s p" if "p \<in> set ?d" for p
    using that by (simp add: set_buffers_to_drop)
  have a: "\<not> m_in_use (heap s ! p) \<and> start_time - m_last_used (heap s ! p) > m_cleanup_timeout s"
    if "(m_buffers s p \<noteq> None \<and> m_buffers s' p = None)
        \<or> (p \<in> set (m_size_list s) \<and> p \<notin> set (m_size_list s'))" for p
  proof -
    have "p \<in> set ?d"
      using that r(7) garbage_collect_keeps[OF s', of p] by (auto split: if_splits)
    then show ?thesis using old by (simp add: too_old_def)
  qed
  have b: "\<forall>p. m_buffers s' p \<noteq> None \<longrightarrow> m_buffers s' p = m_buffers s p"
    using r(7) by simp
  have "filter (\<lambda>p. \<not> too_old start_time s p) (filter (\<lambda>q. q \<notin> set ?d) (m_size_list s'))
      = filter (\<lambda>p. \<not> too_old start_time s p) (filter (\<lambda>q. q \<notin> set ?d) (m_size_list s))"
    using r(9) by simp
  moreover have "(p \<notin> set ?d \<and> \<not> too_old start_time s p) = (\<not> too_old start_time s p)" for p
    using old by blast
  ultimately have c: "filter (\<lambda>p. \<not> too_old start_time s p) (m_size_list s')
         = filter (\<lambda>p. \<not> too_old start_time s p) (m_size_list s)"
    by simp
  from s' a r(1) b r(8) c show ?thesis by blast
qed

lemma pool_wf_gc: "pool_wf pool_gc"
  by (simp add: pool_wf_def pool_gc_def less_Suc_eq numeral_3_eq_3 del: not_None_eq)

lemma buffers_to_drop_gc: "buffers_to_drop 10 pool_gc = [1]"
  by (simp add: buffers_to_drop_def pool_gc_def too_old_def upt_rec numeral_3_eq_3 del: not_None_eq)

lemma garbage_collect_wf_example:
  "pool_wf pool_gc
   \<and> garbage_collect 10 pool_gc
       = Inr (pool_gc\<lparr>m_buffers := Map.empty(0 \<mapsto> True, 2 \<mapsto> True), m_size_list := [0, 2]\<rparr>)
   \<and> (\<exists>s'. garbage_collect 10 pool_gc = Inr s'
     \<and> (\<forall>p. (m_buffers pool_gc p \<noteq> None \<and> m_buffers s' p = None)
              \<or> (p \<in> set (m_size_list pool_gc) \<and> p \<notin> set (m_size_list s'))
          \<longrightarrow> \<not> m_in_use (heap pool_gc ! p)
              \<and> 10 - m_last_used (heap pool_gc ! p) > m_cleanup_timeout pool_gc)
     \<and> heap s' = heap pool_gc)"
proof -
  have run: "garbage_collect 10 pool_gc
       = Inr (pool_gc\<lparr>m_buffers := Map.empty(0 \<mapsto> True, 2 \<mapsto> True), m_size_list := [0, 2]\<rparr>)"
    unfolding garbage_collect_def buffers_to_drop_gc
    by (simp add: pool_gc_def fun_eq_iff)
  show ?thesis
    using pool_wf_gc run garbage_collect_wf[OF pool_wf_gc, of 10]
    by blast
qed

section \<open>Acquisition of zero bytes\<close>

text \<open>
  C6, as the specification states it, fails: on the pool that \<^verbatim>\<open>initialize()\<close> leaves,
  \<open>single_buffer 0\<close> returns a handle, and the record it points to is in use.
\<close>

theorem single_buffer_zero_counterexample:
  "single_buffer 0 5 pool_ready = Inr (Some 0, pool_Z) \<and> buffer_in_use (Some 0) pool_Z"
  by (simp add: single_buffer_def single_buffer_unprotected_def pool_ready_def initialize_def
      static_init_def find_free_Nil new_buffer_def cleanup_due_def Let_def fresh_buffer_def Buffer_new_def
      sort_by_allocated_def pool_Z_def buffer_in_use_def deref_def)

text \<open>
  C6, amended. A size of 0 is not rejected: on a well-formed pool \<open>single_buffer 0\<close>
  returns a handle to a record that is in use and whose \<open>m_data_size\<close> is 0. When the
  free index holds a free record, the handle is the first of them, put into use in place;
  otherwise it is a fresh record of capacity 0.
\<close>

theorem single_buffer_zero_accepted:
  assumes wf: "pool_wf s"
  shows "\<exists>p s'. single_buffer 0 now s = Inr (Some p, s')
     \<and> buffer_in_use (Some p) s' \<and> m_data_size (heap s' ! p) = 0
     \<and> (if \<exists>q \<in> set (m_size_list s). \<not> m_in_use (heap s ! q)
        then (\<exists>i < length (m_size_list s). m_size_list s ! i = p
                \<and> (\<forall>k < i. m_in_use (heap s ! (m_size_list s ! k))))
             \<and> \<not> m_in_use (heap s ! p) \<and> m_size_list s' = m_size_list s
        else p = length (heap s) \<and> m_allocated (heap s' ! p) = 0)"
proof -
  obtain p s' where run: "single_buffer 0 now s = Inr (Some p, s')"
    and post: "p < length (heap s')" "m_in_use (heap s' ! p)" "m_data_size (heap s' ! p) = 0"
    using single_buffer_post[OF wf, of 0 now] by blast
  have inuse: "buffer_in_use (Some p) s'" using post by (simp add: buffer_in_use_def deref_def)
  obtain p' s'' where ff: "single_buffer 0 now s = Inr (Some p', s'') \<and>
     (if \<exists>q \<in> set (m_size_list s). reusable 0 s q
      then (\<exists>i < length (m_size_list s). m_size_list s ! i = p'
              \<and> (\<forall>k < i. \<not> reusable 0 s (m_size_list s ! k)))
           \<and> reusable 0 s p'
           \<and> (\<forall>q \<in> set (m_size_list s). reusable 0 s q
                 \<longrightarrow> m_allocated (heap s ! p') \<le> m_allocated (heap s ! q))
           \<and> heap s'' = (heap s)[p' := (heap s ! p')\<lparr>m_in_use := True, m_data_size := 0,
                 m_usage_count := m_usage_count (heap s ! p') + 1\<rparr>]
           \<and> m_size_list s'' = m_size_list s
           \<and> buffers_available s'' = buffers_available s
      else p' = length (heap s) \<and> p' \<notin> set (m_size_list s)
           \<and> heap s'' = heap s @ [fresh_buffer (m_policies s) 0])"
    using single_buffer_first_fit[OF wf, of 0 now] by blast
  have same: "p' = p" "s'' = s'" using ff run by simp_all
  have r0: "reusable 0 s q = (\<not> m_in_use (heap s ! q))" for q by (simp add: reusable_def)
  show ?thesis
  proof (cases "\<exists>q \<in> set (m_size_list s). \<not> m_in_use (heap s ! q)")
    case True
    then show ?thesis using ff run inuse post(3) unfolding same r0 by auto
  next
    case False
    then have "p = length (heap s)" "heap s' = heap s @ [fresh_buffer (m_policies s) 0]"
      using ff unfolding same r0 by auto
    then have "m_allocated (heap s' ! p) = 0" by (simp add: fresh_buffer_fields)
    then show ?thesis using False run inuse post(3) \<open>p = length (heap s)\<close> by auto
  qed
qed

theorem single_buffer_zero_accepted_witness:
  "pool_wf pool_A_released
   \<and> (\<exists>p s'. single_buffer 0 7 pool_A_released = Inr (Some p, s')
     \<and> buffer_in_use (Some p) s' \<and> m_data_size (heap s' ! p) = 0 \<and> p = 0
     \<and> m_size_list s' = m_size_list pool_A_released)
   \<and> pool_wf pool_ready
   \<and> (\<exists>p s'. single_buffer 0 5 pool_ready = Inr (Some p, s')
     \<and> buffer_in_use (Some p) s' \<and> m_allocated (heap s' ! p) = 0)"
proof -
  have wf1: "pool_wf pool_A_released" by (rule pool_wf_A_released)
  have wf2: "pool_wf pool_ready"
    by (simp add: pool_wf_def pool_ready_def initialize_def static_init_def)
  have free: "\<exists>q \<in> set (m_size_list pool_A_released). \<not> m_in_use (heap pool_A_released ! q)"
    by (simp add: pool_A_released_def pool_A_def)
  have none: "\<not> (\<exists>q \<in> set (m_size_list pool_ready). \<not> m_in_use (heap pool_ready ! q))"
    by (simp add: pool_ready_def initialize_def static_init_def)
  have l: "m_size_list pool_A_released = [0]" by (simp add: pool_A_released_def pool_A_def)
  have a: "\<exists>p s'. single_buffer 0 7 pool_A_released = Inr (Some p, s')
     \<and> buffer_in_use (Some p) s' \<and> m_data_size (heap s' ! p) = 0 \<and> p = 0
     \<and> m_size_list s' = m_size_list pool_A_released"
    using single_buffer_zero_accepted[OF wf1, of 7] free unfolding l by auto
  have b: "\<exists>p s'. single_buffer 0 5 pool_ready = Inr (Some p, s')
     \<and> buffer_in_use (Some p) s' \<and> m_allocated (heap s' ! p) = 0"
    using single_buffer_zero_accepted[OF wf2, of 5] none by auto
  show ?thesis using wf1 wf2 a b by blast
qed

section \<open>Reset\<close>

text \<open>\<open>reset\<close> assigns neither the free index nor the counter.\<close>

lemma reset_keeps:
  "m_size_list (reset s) = m_size_list s" "m_buffers_in_use (reset s) = m_buffers_in_use s"
  "buffers_available (reset s) = buffers_available s" "m_buffers (reset s) = Map.empty"
  by (simp_all add: reset_def buffers_available_def)

text \<open>
  C3. The specification has \<open>reset\<close> clear the free index and the registry. After
  \<^verbatim>\<open>initialize()\<close>, \<open>single_buffer 100\<close> and \<open>reset\<close>, the registry is empty
  and the record is reset, but the free index still holds the handle:
  \<open>buffers_available\<close> is 1, where the specification has 0.
\<close>

theorem reset_leaves_free_index:
  "single_buffer 100 5 pool_ready = Inr (Some 0, pool_A)
   \<and> m_buffers (reset pool_A) = Map.empty
   \<and> heap (reset pool_A) = [Buffer_reset buffer_A]
   \<and> m_size_list (reset pool_A) = [0]
   \<and> buffers_available (reset pool_A) = 1"
proof -
  have "m_buffers (reset pool_A) = Map.empty \<and> heap (reset pool_A) = [Buffer_reset buffer_A]
      \<and> m_size_list (reset pool_A) = [0] \<and> buffers_available (reset pool_A) = 1"
    by (simp add: reset_def pool_A_def buffers_available_def del: not_None_eq)
  then show ?thesis using scenario_A by simp
qed

section \<open>Release, lines 548-573\<close>

text \<open>
  C4. The specification has the release of a free, foreign or null handle do nothing
  and report success. The release of lines 548-559 does not: releasing the buffer of the
  scenario once gives \<open>pool_A_released\<close>; releasing the same handle again changes
  the pool once more, the counter going from 0 to -1; and releasing the null handle
  dereferences it.
\<close>

theorem release_buffer_twice:
  "release_buffer (Some 0) 6 pool_A = Inr (True, pool_A_released)
   \<and> release_buffer (Some 0) 6 pool_A_released = Inr (True, pool_A_released_twice)
   \<and> pool_A_released_twice \<noteq> pool_A_released
   \<and> m_buffers_in_use pool_A_released = 0
   \<and> m_buffers_in_use pool_A_released_twice = - 1
   \<and> release_buffer None 6 pool_A = Inl NullDereference"
proof -
  have "m_buffers_in_use pool_A_released_twice \<noteq> m_buffers_in_use pool_A_released"
    by (simp add: pool_A_released_twice_def pool_A_released_def)
  then have "pool_A_released_twice \<noteq> pool_A_released" by auto
  then show ?thesis
    by (simp add: release_buffer_def deref_def pool_A_def pool_A_released_def
        pool_A_released_twice_def)
qed

text \<open>
  C5. The specification has the counter equal to the number of records in use. With
  the release of lines 548-573 the counter does not follow the flags. After
  one acquisition and two releases of the same handle no record is in use and the
  counter is -1, which \<open>buffers_in_use\<close> reports as \<open>2^64 - 1\<close>; a batch release
  naming the handle twice does the same.
\<close>

theorem in_use_count_drifts:
  "single_buffer 100 5 pool_ready = Inr (Some 0, pool_A)
   \<and> release_buffer (Some 0) 6 pool_A = Inr (True, pool_A_released)
   \<and> release_buffer (Some 0) 6 pool_A_released = Inr (True, pool_A_released_twice)
   \<and> release_buffers [Some 0, Some 0] 6 pool_A = Inr (True, pool_A_released_twice)
   \<and> records_in_use pool_A_released_twice = 0
   \<and> m_buffers_in_use pool_A_released_twice = - 1
   \<and> buffers_in_use pool_A_released_twice = 18446744073709551615"
proof -
  have "release_buffer (Some 0) 6 pool_A = Inr (True, pool_A_released)
   \<and> release_buffer (Some 0) 6 pool_A_released = Inr (True, pool_A_released_twice)
   \<and> release_buffers [Some 0, Some 0] 6 pool_A = Inr (True, pool_A_released_twice)
   \<and> records_in_use pool_A_released_twice = 0
   \<and> m_buffers_in_use pool_A_released_twice = - 1
   \<and> buffers_in_use pool_A_released_twice = 18446744073709551615"
    by (simp add: release_buffer_def release_buffers_def release_one_def deref_def pool_A_def
        pool_A_released_def pool_A_released_twice_def records_in_use_def buffers_in_use_def
        buffer_A_def)
  then show ?thesis using scenario_A by simp
qed

lemma single_buffer_result:
  assumes "single_buffer n now s = Inr (h, s')"
  shows "(find_free n s < length (m_size_list s)
            \<and> h = Some (m_size_list s ! find_free n s)
            \<and> s' = take_buffer n (m_size_list s ! find_free n s) s)
       \<or> (\<not> find_free n s < length (m_size_list s) \<and> \<not> cleanup_due now (new_buffer n s)
            \<and> h = Some (length (heap s)) \<and> s' = new_buffer n s)
       \<or> (\<not> find_free n s < length (m_size_list s) \<and> cleanup_due now (new_buffer n s)
            \<and> h = Some (length (heap s))
            \<and> garbage_collect now ((new_buffer n s)\<lparr>m_last_cleanup_check := now\<rparr>) = Inr s')"
  using assms
  by (auto simp: single_buffer_def single_buffer_unprotected_def Let_def
      split: if_splits sum.splits)

lemma cleanup_due_new_buffer:
  "cleanup_due now (new_buffer n s)
     = (DropOld \<in> m_policies s \<and> m_cleanup_timeout s \<noteq> 0
        \<and> now - m_last_cleanup_check s > m_cleanup_timeout s)"
  by (simp add: cleanup_due_def new_buffer_fields)

text \<open>An acquisition that runs no sweep removes nothing.\<close>

lemma single_buffer_no_sweep:
  assumes run: "single_buffer n now s = Inr (h, s')"
    and no: "length (heap s') = length (heap s) \<or> DropOld \<notin> m_policies s
       \<or> m_cleanup_timeout s = 0 \<or> \<not> now - m_last_cleanup_check s > m_cleanup_timeout s"
  shows "set (m_size_list s) \<subseteq> set (m_size_list s')"
    "\<forall>p. m_buffers s p \<noteq> None \<longrightarrow> m_buffers s' p \<noteq> None"
    "m_last_cleanup_check s' = m_last_cleanup_check s"
    "length (m_size_list s) \<le> length (m_size_list s')"
proof -
  from single_buffer_result[OF run]
  have c: "s' = take_buffer n (m_size_list s ! find_free n s) s \<or> s' = new_buffer n s"
  proof (elim disjE)
    assume g: "\<not> find_free n s < length (m_size_list s) \<and> cleanup_due now (new_buffer n s)
        \<and> h = Some (length (heap s))
        \<and> garbage_collect now ((new_buffer n s)\<lparr>m_last_cleanup_check := now\<rparr>) = Inr s'"
    then have "heap s' = heap (new_buffer n s)"
      using garbage_collect_result(1)[of now "(new_buffer n s)\<lparr>m_last_cleanup_check := now\<rparr>" s']
      by simp
    then have "length (heap s') \<noteq> length (heap s)" by (simp add: new_buffer_fields)
    then have False using no g by (simp add: cleanup_due_new_buffer)
    then show ?thesis ..
  qed auto
  show "set (m_size_list s) \<subseteq> set (m_size_list s')"
    using c by (auto simp: take_buffer_def set_new_buffer_size_list)
  show "\<forall>p. m_buffers s p \<noteq> None \<longrightarrow> m_buffers s' p \<noteq> None"
    using c by (auto simp: take_buffer_def new_buffer_fields)
  show "m_last_cleanup_check s' = m_last_cleanup_check s"
    using c by (auto simp: take_buffer_def new_buffer_fields)
  show "length (m_size_list s) \<le> length (m_size_list s')"
    using c by (auto simp: take_buffer_def new_buffer_fields sort_by_allocated_def)
qed

lemma release_loop_keeps:
  "release_loop now hs s = Inr s' \<Longrightarrow>
     m_size_list s' = m_size_list s \<and> m_buffers s' = m_buffers s
     \<and> m_last_cleanup_check s' = m_last_cleanup_check s"
proof (induction hs arbitrary: s)
  case Nil
  then show ?case by simp
next
  case (Cons h hs)
  then obtain s1 where 1: "release_one now h s = Inr s1" and 2: "release_loop now hs s1 = Inr s'"
    by (auto split: sum.splits)
  have "m_size_list s1 = m_size_list s \<and> m_buffers s1 = m_buffers s
     \<and> m_last_cleanup_check s1 = m_last_cleanup_check s"
    using 1 by (auto simp: release_one_def split: option.splits)
  then show ?case using Cons.IH[OF 2] by simp
qed

lemma release_checked_loop_keeps:
  "m_size_list (fold (release_one_checked now) hs s) = m_size_list s
   \<and> m_buffers (fold (release_one_checked now) hs s) = m_buffers s
   \<and> m_last_cleanup_check (fold (release_one_checked now) hs s) = m_last_cleanup_check s"
proof (induction hs arbitrary: s)
  case Nil
  then show ?case by simp
next
  case (Cons h hs)
  have "m_size_list (release_one_checked now h s) = m_size_list s
     \<and> m_buffers (release_one_checked now h s) = m_buffers s
     \<and> m_last_cleanup_check (release_one_checked now h s) = m_last_cleanup_check s"
    by (auto simp: release_one_checked_def split: option.splits)
  then show ?case using Cons.IH[of "release_one_checked now h s"] by simp
qed

section \<open>Eviction: when a sweep runs\<close>

text \<open>
  C8. A sweep shows in the state: it assigns \<open>m_last_cleanup_check\<close>, and it is the
  only code that takes entries out of the free index or the registry (apart from
  \<open>reset\<close>, which clears the registry). If an acquisition changed
  \<open>m_last_cleanup_check\<close>, or lost an entry of the free index or a key of the registry,
  then it allocated a fresh record, the \<open>DropOld\<close> policy was active,
  \<open>m_cleanup_timeout\<close> was not 0 and more than \<open>m_cleanup_timeout\<close> had passed since
  \<open>m_last_cleanup_check\<close>. So nothing is removed after \<open>set_cleanup_timeout 0\<close>.
  The release operations, in both revisions, never shorten the free index nor take a key
  out of the registry.
\<close>

theorem eviction_only_on_fresh_allocation:
  "(single_buffer n now s = Inr (h, s')
      \<and> (m_last_cleanup_check s' \<noteq> m_last_cleanup_check s
          \<or> \<not> set (m_size_list s) \<subseteq> set (m_size_list s')
          \<or> (\<exists>p. m_buffers s p \<noteq> None \<and> m_buffers s' p = None))
    \<longrightarrow> length (heap s') = Suc (length (heap s)) \<and> h = Some (length (heap s))
        \<and> policy_is_active DropOld s \<and> m_cleanup_timeout s \<noteq> 0
        \<and> now - m_last_cleanup_check s > m_cleanup_timeout s)
   \<and> (single_buffer n now (set_cleanup_timeout 0 t s) = Inr (h, s')
    \<longrightarrow> set (m_size_list s) \<subseteq> set (m_size_list s')
        \<and> (\<forall>p. m_buffers s p \<noteq> None \<longrightarrow> m_buffers s' p \<noteq> None))
   \<and> (release_buffer h now s = Inr (ok, s')
    \<longrightarrow> m_size_list s' = m_size_list s \<and> (\<forall>p. m_buffers s p \<noteq> None \<longrightarrow> m_buffers s' p \<noteq> None)
        \<and> m_last_cleanup_check s' = m_last_cleanup_check s)
   \<and> (release_buffers hs now s = Inr (ok, s')
    \<longrightarrow> m_size_list s' = m_size_list s \<and> m_buffers s' = m_buffers s
        \<and> m_last_cleanup_check s' = m_last_cleanup_check s)
   \<and> (release_buffer_checked h now s = (ok, s')
    \<longrightarrow> m_size_list s' = m_size_list s \<and> (\<forall>p. m_buffers s p \<noteq> None \<longrightarrow> m_buffers s' p \<noteq> None)
        \<and> m_last_cleanup_check s' = m_last_cleanup_check s)
   \<and> (release_buffers_checked hs now s = (ok, s')
    \<longrightarrow> m_size_list s' = m_size_list s \<and> m_buffers s' = m_buffers s
        \<and> m_last_cleanup_check s' = m_last_cleanup_check s)"
proof (intro conjI impI)
  assume a: "single_buffer n now s = Inr (h, s')
      \<and> (m_last_cleanup_check s' \<noteq> m_last_cleanup_check s
          \<or> \<not> set (m_size_list s) \<subseteq> set (m_size_list s')
          \<or> (\<exists>p. m_buffers s p \<noteq> None \<and> m_buffers s' p = None))"
  then have run: "single_buffer n now s = Inr (h, s')" by simp
  have sweep: "\<not> (length (heap s') = length (heap s) \<or> DropOld \<notin> m_policies s
       \<or> m_cleanup_timeout s = 0 \<or> \<not> now - m_last_cleanup_check s > m_cleanup_timeout s)"
    using a single_buffer_no_sweep(1,2,3)[OF run] by blast
  then show "policy_is_active DropOld s" "m_cleanup_timeout s \<noteq> 0"
    "now - m_last_cleanup_check s > m_cleanup_timeout s"
    by (simp_all add: policy_is_active_def)
  have fresh: "h = Some (length (heap s)) \<and> length (heap s') = Suc (length (heap s))"
    using single_buffer_result[OF run] sweep garbage_collect_result(1)
    by (fastforce simp: take_buffer_def new_buffer_fields)
  then show "length (heap s') = Suc (length (heap s))" "h = Some (length (heap s))" by simp_all
next
  assume run: "single_buffer n now (set_cleanup_timeout 0 t s) = Inr (h, s')"
  have z: "m_cleanup_timeout (set_cleanup_timeout 0 t s) = 0"
    "m_size_list (set_cleanup_timeout 0 t s) = m_size_list s"
    "m_buffers (set_cleanup_timeout 0 t s) = m_buffers s"
    by (simp_all add: set_cleanup_timeout_def set_policy_def)
  show "set (m_size_list s) \<subseteq> set (m_size_list s')"
    using single_buffer_no_sweep(1)[OF run] z by simp
  show "\<forall>p. m_buffers s p \<noteq> None \<longrightarrow> m_buffers s' p \<noteq> None"
    using single_buffer_no_sweep(2)[OF run] z by simp
next
  assume "release_buffer h now s = Inr (ok, s')"
  then have "m_size_list s' = m_size_list s \<and> (\<forall>p. m_buffers s p \<noteq> None \<longrightarrow> m_buffers s' p \<noteq> None)
        \<and> m_last_cleanup_check s' = m_last_cleanup_check s"
    by (auto simp: release_buffer_def split: option.splits)
  then show "m_size_list s' = m_size_list s" "\<forall>p. m_buffers s p \<noteq> None \<longrightarrow> m_buffers s' p \<noteq> None"
    "m_last_cleanup_check s' = m_last_cleanup_check s" by simp_all
next
  assume "release_buffers hs now s = Inr (ok, s')"
  then have "release_loop now hs s = Inr s'"
    by (auto simp: release_buffers_def split: sum.splits)
  from release_loop_keeps[OF this]
  show "m_size_list s' = m_size_list s" "m_buffers s' = m_buffers s"
    "m_last_cleanup_check s' = m_last_cleanup_check s" by simp_all
next
  assume "release_buffer_checked h now s = (ok, s')"
  then have "m_size_list s' = m_size_list s \<and> (\<forall>p. m_buffers s p \<noteq> None \<longrightarrow> m_buffers s' p \<noteq> None)
        \<and> m_last_cleanup_check s' = m_last_cleanup_check s"
    by (auto simp: release_buffer_checked_def split: option.splits if_splits)
  then show "m_size_list s' = m_size_list s" "\<forall>p. m_buffers s p \<noteq> None \<longrightarrow> m_buffers s' p \<noteq> None"
    "m_last_cleanup_check s' = m_last_cleanup_check s" by simp_all
next
  assume "release_buffers_checked hs now s = (ok, s')"
  then have "s' = fold (release_one_checked now) hs s"
    by (simp add: release_buffers_checked_def)
  then show "m_size_list s' = m_size_list s" "m_buffers s' = m_buffers s"
    "m_last_cleanup_check s' = m_last_cleanup_check s"
    using release_checked_loop_keeps[of now hs s] by simp_all
qed

lemma find_free_gc: "find_free 50 pool_gc = 3"
  by (simp add: find_free_def pool_gc_def lower_bound_def lower_bound_from.simps
      skip_in_use.simps)

lemma new_buffer_gc:
  "new_buffer 50 pool_gc = pool_gc\<lparr>
     heap := heap pool_gc @ [fresh_buffer {ZeroBuffer, DropOld} 50],
     m_buffers := Map.empty(0 \<mapsto> True, 1 \<mapsto> True, 2 \<mapsto> True, 3 \<mapsto> True),
     m_buffers_in_use := 2,
     m_size_list := [0, 1, 2, 3]\<rparr>"
  by (simp add: new_buffer_def pool_gc_def Let_def sort_by_allocated_def fresh_buffer_def Buffer_new_def
      numeral_3_eq_3)

lemma scenario_gc: "single_buffer 50 10 pool_gc = Inr (Some 3, pool_gc_swept)"
proof -
  let ?s1 = "(new_buffer 50 pool_gc)\<lparr>m_last_cleanup_check := 10\<rparr>"
  have init: "m_initialized pool_gc" by (simp add: pool_gc_def)
  have nf: "\<not> find_free 50 pool_gc < length (m_size_list pool_gc)"
    by (simp add: find_free_gc) (simp add: pool_gc_def)
  have due: "cleanup_due 10 (new_buffer 50 pool_gc)"
    by (simp add: cleanup_due_new_buffer) (simp add: pool_gc_def)
  have drop: "buffers_to_drop 10 ?s1 = [1]"
    unfolding new_buffer_gc
    by (simp add: buffers_to_drop_def pool_gc_def too_old_def upt_rec fresh_buffer_def Buffer_new_def
        del: not_None_eq)
  have gc: "garbage_collect 10 ?s1 = Inr pool_gc_swept"
    unfolding garbage_collect_def drop
    unfolding new_buffer_gc
    by (simp add: pool_gc_def pool_gc_swept_def fun_eq_iff)
  have len: "length (heap pool_gc) = 3" by (simp add: pool_gc_def)
  show ?thesis
    using single_buffer_fresh[OF init nf, of 10] due gc len by simp
qed

theorem eviction_only_on_fresh_allocation_witness:
  "(single_buffer 50 10 pool_gc = Inr (Some 3, pool_gc_swept)
     \<and> \<not> set (m_size_list pool_gc) \<subseteq> set (m_size_list pool_gc_swept)
     \<and> length (heap pool_gc_swept) = Suc (length (heap pool_gc))
     \<and> policy_is_active DropOld pool_gc \<and> m_cleanup_timeout pool_gc \<noteq> 0
     \<and> 10 - m_last_cleanup_check pool_gc > m_cleanup_timeout pool_gc)
   \<and> (single_buffer 50 10 (set_cleanup_timeout 0 3 pool_gc)
         = Inr (Some 3, new_buffer 50 (set_cleanup_timeout 0 3 pool_gc))
     \<and> set (m_size_list pool_gc)
         \<subseteq> set (m_size_list (new_buffer 50 (set_cleanup_timeout 0 3 pool_gc))))
   \<and> (release_buffer (Some 0) 6 pool_A = Inr (True, pool_A_released)
     \<and> release_buffers [Some 0] 6 pool_A = Inr (True, pool_A_released)
     \<and> release_buffer_checked (Some 0) 6 pool_A = (True, pool_A_released)
     \<and> release_buffers_checked [Some 0] 6 pool_A = (True, pool_A_released)
     \<and> m_size_list pool_A_released = m_size_list pool_A)"
proof -
  have lost: "\<not> set (m_size_list pool_gc) \<subseteq> set (m_size_list pool_gc_swept)"
    by (simp add: pool_gc_def pool_gc_swept_def)
  have a: "length (heap pool_gc_swept) = Suc (length (heap pool_gc))
     \<and> policy_is_active DropOld pool_gc \<and> m_cleanup_timeout pool_gc \<noteq> 0
     \<and> 10 - m_last_cleanup_check pool_gc > m_cleanup_timeout pool_gc"
    using eviction_only_on_fresh_allocation[where n = 50 and now = 10 and s = pool_gc
        and h = "Some 3" and s' = pool_gc_swept] scenario_gc lost
    by blast
  let ?z = "set_cleanup_timeout 0 3 pool_gc"
  have zf: "m_initialized ?z" "m_size_list ?z = m_size_list pool_gc" "heap ?z = heap pool_gc"
    "m_cleanup_timeout ?z = 0"
    by (simp_all add: set_cleanup_timeout_def set_policy_def pool_gc_def)
  have "find_free 50 ?z = find_free 50 pool_gc" by (simp add: find_free_def zf)
  then have nf: "\<not> find_free 50 ?z < length (m_size_list ?z)"
    by (simp add: find_free_gc zf) (simp add: pool_gc_def)
  have nd: "\<not> cleanup_due 10 (new_buffer 50 ?z)"
    by (simp add: cleanup_due_new_buffer zf)
  have run0: "single_buffer 50 10 ?z = Inr (Some 3, new_buffer 50 ?z)"
    using single_buffer_fresh[OF zf(1) nf, of 10] nd by (simp add: zf) (simp add: pool_gc_def)
  have b: "set (m_size_list pool_gc) \<subseteq> set (m_size_list (new_buffer 50 ?z))"
    using eviction_only_on_fresh_allocation[where n = 50 and now = 10 and s = pool_gc
        and t = 3 and h = "Some 3" and s' = "new_buffer 50 ?z"] run0
    by blast
  have r1: "release_buffer (Some 0) 6 pool_A = Inr (True, pool_A_released)"
    by (rule scenario_A_released)
  have r2: "release_buffers [Some 0] 6 pool_A = Inr (True, pool_A_released)"
    by (simp add: release_buffers_def release_one_def deref_def pool_A_def pool_A_released_def)
  have r3: "release_buffer_checked (Some 0) 6 pool_A = (True, pool_A_released)"
    by (simp add: release_buffer_checked_def deref_def pool_A_def pool_A_released_def buffer_A_def)
  have r4: "release_buffers_checked [Some 0] 6 pool_A = (True, pool_A_released)"
    by (simp add: release_buffers_checked_def release_one_checked_def deref_def pool_A_def
        pool_A_released_def buffer_A_def)
  have c: "m_size_list pool_A_released = m_size_list pool_A"
    using eviction_only_on_fresh_allocation[where h = "Some 0" and now = 6 and s = pool_A
        and ok = True and s' = pool_A_released and hs = "[Some 0]"] r1 r2 r3 r4
    by blast
  show ?thesis using scenario_gc lost a run0 b r1 r2 r3 r4 c by blast
qed

section \<open>Batch release and single releases, lines 548-573\<close>

lemma release_one_fields:
  assumes "release_one now h s = Inr s'"
  shows "\<exists>i. h = Some i \<and> i < length (heap s)
     \<and> heap s' = (heap s)[i := released now (heap s ! i)]"
    "m_buffers_in_use s' = m_buffers_in_use s - 1" "m_buffers s' = m_buffers s"
    "m_size_list s' = m_size_list s" "m_policies s' = m_policies s"
    "m_cleanup_timeout s' = m_cleanup_timeout s"
    "m_last_cleanup_check s' = m_last_cleanup_check s" "m_initialized s' = m_initialized s"
  using assms
  by (auto simp: release_one_def deref_def released_def split: option.splits if_splits)

lemma release_one_ok:
  "deref s h \<noteq> None \<Longrightarrow> \<exists>s'. release_one now h s = Inr s'"
  by (auto simp: release_one_def)

lemma release_one_null:
  "deref s h = None \<Longrightarrow> release_one now h s = Inl NullDereference"
  by (simp add: release_one_def)

text \<open>
  The loop of \<open>release_buffers\<close> in closed form: it fails when a handle points to no
  object; otherwise every record named is left released, and the counter has gone down
  by the length of the list.
\<close>

lemma release_loop_closed:
  "release_loop now hs s =
     (if \<forall>h \<in> set hs. deref s h \<noteq> None
      then Inr (s\<lparr>heap := map (\<lambda>(i, b). if Some i \<in> set hs then released now b else b)
                            (zip [0..<length (heap s)] (heap s)),
                  m_buffers_in_use := m_buffers_in_use s - int (length hs)\<rparr>)
      else Inl NullDereference)"
proof (induction hs arbitrary: s)
  case Nil
  have "map (\<lambda>(i, b). b) (zip [0..<length (heap s)] (heap s)) = heap s"
    by (rule nth_equalityI) simp_all
  then show ?case by simp
next
  case (Cons h hs)
  show ?case
  proof (cases "deref s h")
    case None
    then show ?thesis by (auto simp: release_one_null)
  next
    case (Some b)
    then obtain s1 where s1: "release_one now h s = Inr s1"
      using release_one_ok[of s h now] by auto
    note f = release_one_fields[OF s1]
    from f(1) obtain i where i: "h = Some i" "i < length (heap s)"
      "heap s1 = (heap s)[i := released now (heap s ! i)]" by blast
    have len: "length (heap s1) = length (heap s)" using i by simp
    have dr: "(deref s1 k \<noteq> None) = (deref s k \<noteq> None)" for k
      by (simp add: deref_def len split: option.splits)
    have hp: "map (\<lambda>(j, b). if Some j \<in> set hs then released now b else b)
                 (zip [0..<length (heap s1)] (heap s1))
            = map (\<lambda>(j, b). if Some j \<in> set (h # hs) then released now b else b)
                 (zip [0..<length (heap s)] (heap s))"
      by (rule nth_equalityI) (auto simp: len i nth_list_update released_def)
    have eq: "s1\<lparr>heap := map (\<lambda>(j, b). if Some j \<in> set hs then released now b else b)
                 (zip [0..<length (heap s1)] (heap s1)),
               m_buffers_in_use := m_buffers_in_use s1 - int (length hs)\<rparr>
           = s\<lparr>heap := map (\<lambda>(j, b). if Some j \<in> set (h # hs) then released now b else b)
                 (zip [0..<length (heap s)] (heap s)),
               m_buffers_in_use := m_buffers_in_use s - int (length (h # hs))\<rparr>"
      unfolding hp using f(2-8) by (cases s, cases s1) simp
    have "release_loop now (h # hs) s = release_loop now hs s1" using s1 by simp
    also have "\<dots> = (if \<forall>h \<in> set hs. deref s1 h \<noteq> None
        then Inr (s1\<lparr>heap := map (\<lambda>(j, b). if Some j \<in> set hs then released now b else b)
                 (zip [0..<length (heap s1)] (heap s1)),
               m_buffers_in_use := m_buffers_in_use s1 - int (length hs)\<rparr>)
        else Inl NullDereference)"
      by (rule Cons.IH)
    finally show ?thesis using Some eq dr by auto
  qed
qed

text \<open>So the order of the handles in a batch does not matter.\<close>

lemma release_buffers_any_order:
  "set hs' = set hs \<Longrightarrow> length hs' = length hs
     \<Longrightarrow> release_buffers hs' now s = release_buffers hs now s"
  by (simp add: release_buffers_def release_loop_closed)

text \<open>
  On a registered handle \<open>release_buffer\<close> does what one iteration of the batch
  does: the assignment \<^verbatim>\<open>m_buffers[buffer] = true\<close> changes nothing.
\<close>

lemma release_buffer_registered:
  assumes "\<forall>i. h = Some i \<and> i < length (heap s) \<longrightarrow> m_buffers s i = Some True"
  shows "release_buffer h now s
       = (case release_one now h s of Inl e \<Rightarrow> Inl e | Inr s' \<Rightarrow> Inr (True, s'))"
proof (cases "deref s h")
  case None
  then show ?thesis by (simp add: release_buffer_def release_one_def)
next
  case (Some b)
  then obtain i where i: "h = Some i" "i < length (heap s)"
    by (auto simp: deref_def split: option.splits if_splits)
  then have "(m_buffers s)(i \<mapsto> True) = m_buffers s" using assms by (auto simp: fun_eq_iff)
  then show ?thesis using Some i by (simp add: release_buffer_def release_one_def)
qed

text \<open>
  When every handle of the list is a key of \<^verbatim>\<open>m_buffers\<close>, single releases in any
  order come to the state of the batch release.
\<close>

lemma release_each_registered:
  assumes "\<forall>i. Some i \<in> set hs \<and> i < length (heap s) \<longrightarrow> m_buffers s i = Some True"
  shows "release_each hs now s = release_loop now hs s"
  using assms
proof (induction hs arbitrary: s)
  case Nil
  then show ?case by simp
next
  case (Cons h hs)
  have reg: "\<forall>i. h = Some i \<and> i < length (heap s) \<longrightarrow> m_buffers s i = Some True"
    using Cons.prems by simp
  show ?case
  proof (cases "release_one now h s")
    case (Inl e)
    then show ?thesis using release_buffer_registered[OF reg, of now] by simp
  next
    case (Inr s1)
    note f = release_one_fields[OF Inr]
    have "length (heap s1) = length (heap s)" using f(1) by auto
    then have "\<forall>i. Some i \<in> set hs \<and> i < length (heap s1) \<longrightarrow> m_buffers s1 i = Some True"
      using Cons.prems f(3) by simp
    then have "release_each hs now s1 = release_loop now hs s1" by (rule Cons.IH)
    then show ?thesis using Inr release_buffer_registered[OF reg, of now] by simp
  qed
qed

lemma release_each_any_order_registered:
  assumes "\<forall>i. Some i \<in> set hs \<and> i < length (heap s) \<longrightarrow> m_buffers s i = Some True"
    and "set hs' = set hs" "length hs' = length hs"
  shows "(case release_each hs' now s of Inl e \<Rightarrow> Inl e | Inr s' \<Rightarrow> Inr (True, s'))
       = release_buffers hs now s"
proof -
  have "release_each hs' now s = release_loop now hs' s"
    using assms(1,2) by (intro release_each_registered) simp
  also have "\<dots> = release_loop now hs s"
    using assms(2,3) by (simp add: release_loop_closed)
  finally show ?thesis by (simp add: release_buffers_def)
qed

text \<open>
  C9. The specification has a batch release end in the state of the single releases.
  After \<^verbatim>\<open>initialize()\<close>, \<open>single_buffer 100\<close> and \<open>reset\<close>, releasing handle 0
  with \<open>release_buffer\<close> and releasing it with \<open>release_buffers\<close> do not give the
  same pool: the first makes the handle a key of the registry again, the second leaves
  the registry empty.
\<close>

theorem release_buffers_differs_from_release_buffer:
  "single_buffer 100 5 pool_ready = Inr (Some 0, pool_A)
   \<and> release_buffers [Some 0] 6 (reset pool_A) = Inr (True, pool_A_reset_batch)
   \<and> release_buffer (Some 0) 6 (reset pool_A) = Inr (True, pool_A_reset_single)
   \<and> m_buffers pool_A_reset_batch 0 = None
   \<and> m_buffers pool_A_reset_single 0 = Some True
   \<and> pool_A_reset_single \<noteq> pool_A_reset_batch"
proof -
  have r: "reset pool_A = pool_A\<lparr>heap := [Buffer_reset buffer_A], m_buffers := Map.empty\<rparr>"
    by (simp add: reset_def pool_A_def del: not_None_eq)
  have b: "release_buffers [Some 0] 6 (reset pool_A) = Inr (True, pool_A_reset_batch)"
    unfolding r
    by (simp add: release_buffers_def release_one_def deref_def pool_A_def pool_A_reset_batch_def
        Buffer_reset_def)
  have a: "release_buffer (Some 0) 6 (reset pool_A) = Inr (True, pool_A_reset_single)"
    unfolding r
    by (simp add: release_buffer_def deref_def pool_A_def pool_A_reset_batch_def
        pool_A_reset_single_def Buffer_reset_def)
  have m: "m_buffers pool_A_reset_batch 0 = None" "m_buffers pool_A_reset_single 0 = Some True"
    by (simp_all add: pool_A_reset_batch_def pool_A_reset_single_def pool_A_def)
  then have "m_buffers pool_A_reset_single \<noteq> m_buffers pool_A_reset_batch" by auto
  then have "pool_A_reset_single \<noteq> pool_A_reset_batch" by auto
  then show ?thesis using scenario_A a b m by simp
qed

section \<open>Invariants of the pool\<close>

lemma sorted_allocated_cong:
  assumes "sorted (map (\<lambda>p. m_allocated (hp ! p)) xs)"
    and "\<forall>p \<in> set xs. m_allocated (hp' ! p) = m_allocated (hp ! p)"
  shows "sorted (map (\<lambda>p. m_allocated (hp' ! p)) xs)"
proof -
  have eq: "map (\<lambda>p. m_allocated (hp' ! p)) xs = map (\<lambda>p. m_allocated (hp ! p)) xs"
    using assms(2) by simp
  show ?thesis unfolding eq by (rule assms(1))
qed

lemma filter_length_set:
  assumes "i < length xs" "\<not> P (xs ! i)" "P y"
  shows "length (filter P (xs[i := y])) = Suc (length (filter P xs))"
  using assms
proof (induction xs arbitrary: i)
  case Nil
  then show ?case by simp
next
  case (Cons x xs)
  then show ?case by (cases i) auto
qed

lemma filter_length_clear:
  assumes "i < length xs" "P (xs ! i)" "\<not> P y"
  shows "Suc (length (filter P (xs[i := y]))) = length (filter P xs)"
  using assms
proof (induction xs arbitrary: i)
  case Nil
  then show ?case by simp
next
  case (Cons x xs)
  then show ?case by (cases i) auto
qed

lemma pool_invI:
  assumes "m_initialized s" "\<forall>p \<in> set (m_size_list s). p < length (heap s)"
    "sorted (map (\<lambda>p. m_allocated (heap s ! p)) (m_size_list s))"
    "\<forall>p < length (heap s). m_buffers s p \<noteq> None \<longrightarrow> p \<in> set (m_size_list s)"
    "distinct (m_size_list s)"
    "\<forall>p < length (heap s). m_in_use (heap s ! p) \<longrightarrow> p \<in> set (m_size_list s)"
    "\<forall>p \<in> set (m_size_list s). m_buffers s p = None \<longrightarrow> m_allocated (heap s ! p) = 0"
  shows "pool_inv s"
  using assms unfolding pool_inv_def pool_wf_def by blast

lemma pool_invD:
  assumes "pool_inv s"
  shows "m_initialized s" "\<forall>p \<in> set (m_size_list s). p < length (heap s)"
    "sorted (map (\<lambda>p. m_allocated (heap s ! p)) (m_size_list s))"
    "\<forall>p < length (heap s). m_buffers s p \<noteq> None \<longrightarrow> p \<in> set (m_size_list s)"
    "distinct (m_size_list s)"
    "\<forall>p < length (heap s). m_in_use (heap s ! p) \<longrightarrow> p \<in> set (m_size_list s)"
    "\<forall>p \<in> set (m_size_list s). m_buffers s p = None \<longrightarrow> m_allocated (heap s ! p) = 0"
  using assms unfolding pool_inv_def pool_wf_def by blast+

lemma pool_inv_wf: "pool_inv s \<Longrightarrow> pool_wf s"
  by (simp add: pool_inv_def)

lemma pool_inv_ready: "pool_inv pool_ready \<and> count_ok pool_ready"
  by (simp add: pool_inv_def pool_wf_def count_ok_def records_in_use_def pool_ready_def
      initialize_def static_init_def)

text \<open>The reuse branch.\<close>

lemma take_buffer_inv:
  assumes inv: "pool_inv s" and p: "p \<in> set (m_size_list s)"
  shows "pool_inv (take_buffer n p s)"
proof -
  note d = pool_invD[OF inv]
  let ?b = "(heap s ! p)\<lparr>m_in_use := True, m_data_size := n,
      m_usage_count := m_usage_count (heap s ! p) + 1\<rparr>"
  have hp: "heap (take_buffer n p s) = (heap s)[p := ?b]" and
    same: "m_size_list (take_buffer n p s) = m_size_list s"
      "m_buffers (take_buffer n p s) = m_buffers s"
      "m_initialized (take_buffer n p s) = m_initialized s"
    by (simp_all add: take_buffer_def)
  have al: "m_allocated ((heap s)[p := ?b] ! q) = m_allocated (heap s ! q)" for q
    by (cases "q = p"; cases "p < length (heap s)") (simp_all add: list_update_beyond)
  have us: "m_in_use ((heap s)[p := ?b] ! q) \<Longrightarrow> q = p \<or> m_in_use (heap s ! q)" for q
    by (cases "q = p") simp_all
  show ?thesis
  proof (rule pool_invI)
    show "sorted (map (\<lambda>q. m_allocated (heap (take_buffer n p s) ! q)) (m_size_list (take_buffer n p s)))"
      unfolding hp same by (rule sorted_allocated_cong[OF d(3)]) (simp add: al)
    show "\<forall>q < length (heap (take_buffer n p s)). m_in_use (heap (take_buffer n p s) ! q)
        \<longrightarrow> q \<in> set (m_size_list (take_buffer n p s))"
      unfolding hp same
    proof (intro allI impI)
      fix q assume "q < length ((heap s)[p := ?b])" "m_in_use ((heap s)[p := ?b] ! q)"
      then have "q < length (heap s)" "q = p \<or> m_in_use (heap s ! q)" using us[of q] by simp_all
      then show "q \<in> set (m_size_list s)" using d(6) p by blast
    qed
    show "\<forall>q \<in> set (m_size_list (take_buffer n p s)). m_buffers (take_buffer n p s) q = None
        \<longrightarrow> m_allocated (heap (take_buffer n p s) ! q) = 0"
      unfolding hp same al using d(7) .
    show "m_initialized (take_buffer n p s)" using d(1) by (simp add: same)
    show "\<forall>q \<in> set (m_size_list (take_buffer n p s)). q < length (heap (take_buffer n p s))"
      using d(2) by (simp add: hp same)
    show "\<forall>q < length (heap (take_buffer n p s)). m_buffers (take_buffer n p s) q \<noteq> None
        \<longrightarrow> q \<in> set (m_size_list (take_buffer n p s))"
      using d(4) by (simp add: hp same)
    show "distinct (m_size_list (take_buffer n p s))" using d(5) by (simp add: same)
  qed
qed

lemma take_buffer_count:
  assumes "count_ok s" "p < length (heap s)" "\<not> m_in_use (heap s ! p)"
  shows "count_ok (take_buffer n p s)"
proof -
  let ?b = "(heap s ! p)\<lparr>m_in_use := True, m_data_size := n,
      m_usage_count := m_usage_count (heap s ! p) + 1\<rparr>"
  have "length (filter m_in_use ((heap s)[p := ?b])) = Suc (length (filter m_in_use (heap s)))"
    using assms(2,3) by (intro filter_length_set) simp_all
  then show ?thesis using assms(1) by (simp add: count_ok_def records_in_use_def take_buffer_def)
qed

text \<open>The fresh-allocation branch, before the sweep.\<close>

lemma new_buffer_inv:
  assumes inv: "pool_inv s"
  shows "pool_inv (new_buffer n s)"
proof -
  note d = pool_invD[OF inv]
  let ?hp = "heap s @ [fresh_buffer (m_policies s) n]"
  let ?f = "\<lambda>q. m_allocated (?hp ! q)"
  have fresh: "length (heap s) \<notin> set (m_size_list s)" using d(2) by auto
  have old: "?hp ! q = heap s ! q" if "q < length (heap s)" for q
    using that by (simp add: nth_append)
  show ?thesis
  proof (rule pool_invI)
    show "m_initialized (new_buffer n s)" using d(1) by (simp add: new_buffer_fields)
    show "\<forall>q \<in> set (m_size_list (new_buffer n s)). q < length (heap (new_buffer n s))"
      using d(2) by (auto simp: set_new_buffer_size_list new_buffer_fields(1))
    show "sorted (map (\<lambda>q. m_allocated (heap (new_buffer n s) ! q)) (m_size_list (new_buffer n s)))"
      by (simp add: new_buffer_fields sort_by_allocated_def del: sort_key_simps)
    show "\<forall>q < length (heap (new_buffer n s)). m_buffers (new_buffer n s) q \<noteq> None
        \<longrightarrow> q \<in> set (m_size_list (new_buffer n s))"
      using new_buffer_registry[of s n] d(4) by blast
    show "distinct (m_size_list (new_buffer n s))"
      using d(5) fresh by (simp add: new_buffer_fields sort_by_allocated_def)
    show "\<forall>q < length (heap (new_buffer n s)). m_in_use (heap (new_buffer n s) ! q)
        \<longrightarrow> q \<in> set (m_size_list (new_buffer n s))"
      using d(6) old by (auto simp: set_new_buffer_size_list new_buffer_fields(1) less_Suc_eq)
    show "\<forall>q \<in> set (m_size_list (new_buffer n s)). m_buffers (new_buffer n s) q = None
        \<longrightarrow> m_allocated (heap (new_buffer n s) ! q) = 0"
      using d(7) d(2) old by (auto simp: set_new_buffer_size_list new_buffer_fields(1,2))
  qed
qed

lemma new_buffer_count: "count_ok s \<Longrightarrow> count_ok (new_buffer n s)"
  by (simp add: count_ok_def records_in_use_def new_buffer_fields fresh_buffer_fields)

text \<open>The sweep.\<close>

lemma garbage_collect_inv:
  assumes inv: "pool_inv s" and gc: "garbage_collect t s = Inr s'"
  shows "pool_inv s'"
proof -
  note d = pool_invD[OF inv]
  note r = garbage_collect_result[OF gc]
  let ?d = "buffers_to_drop t s"
  have keep: "q \<in> set (m_size_list s')" if "q \<in> set (m_size_list s)" "q \<notin> set ?d" for q
    using garbage_collect_keeps[OF gc that] .
  have sets: "set (m_size_list s') = set (m_size_list s) - set ?d" using r(12) d(5) by simp
  show ?thesis
  proof (rule pool_invI)
    show "m_initialized s'" using r(6) d(1) by simp
    show "\<forall>p \<in> set (m_size_list s'). p < length (heap s')" using r(1) r(8) d(2) by auto
    show "sorted (map (\<lambda>p. m_allocated (heap s' ! p)) (m_size_list s'))"
      unfolding r(1) using d(3) by (rule garbage_collect_result(10)[OF gc])
    show "\<forall>p < length (heap s'). m_buffers s' p \<noteq> None \<longrightarrow> p \<in> set (m_size_list s')"
      using r(1) r(7) d(4) sets by (auto split: if_splits)
    show "distinct (m_size_list s')" using r(11) d(5) by simp
    show "\<forall>p < length (heap s'). m_in_use (heap s' ! p) \<longrightarrow> p \<in> set (m_size_list s')"
      unfolding r(1) sets using d(6) by (auto simp: set_buffers_to_drop too_old_def)
    show "\<forall>p \<in> set (m_size_list s'). m_buffers s' p = None \<longrightarrow> m_allocated (heap s' ! p) = 0"
      unfolding r(1) sets using d(7) r(7) by (auto split: if_splits)
  qed
qed

lemma garbage_collect_count:
  assumes "count_ok s" and gc: "garbage_collect t s = Inr s'"
  shows "count_ok s'"
  using assms(1) garbage_collect_result(1,5)[OF gc]
  by (simp add: count_ok_def records_in_use_def)

text \<open>The invariant reads the records, the two containers and the initialisation flag.\<close>

lemma pool_inv_cong:
  "heap s' = heap s \<Longrightarrow> m_buffers s' = m_buffers s \<Longrightarrow> m_size_list s' = m_size_list s
     \<Longrightarrow> m_initialized s' = m_initialized s \<Longrightarrow> pool_inv s' = pool_inv s"
  by (simp add: pool_inv_def pool_wf_def)

lemma pool_inv_last_check: "pool_inv s \<Longrightarrow> pool_inv (s\<lparr>m_last_cleanup_check := now\<rparr>)"
  by (simp add: pool_inv_cong[of "s\<lparr>m_last_cleanup_check := now\<rparr>" s])

lemma count_ok_last_check: "count_ok s \<Longrightarrow> count_ok (s\<lparr>m_last_cleanup_check := now\<rparr>)"
  by (simp add: count_ok_def records_in_use_def)

text \<open>An acquisition keeps the invariant, and the counter right.\<close>

lemma single_buffer_inv:
  assumes inv: "pool_inv s" and run: "single_buffer n now s = Inr (h, s')"
  shows "pool_inv s'"
proof -
  from single_buffer_result[OF run] show ?thesis
  proof (elim disjE conjE)
    assume "find_free n s < length (m_size_list s)"
      and s': "s' = take_buffer n (m_size_list s ! find_free n s) s"
    then show ?thesis using take_buffer_inv[OF inv] by simp
  next
    assume "s' = new_buffer n s"
    then show ?thesis using new_buffer_inv[OF inv] by simp
  next
    assume "garbage_collect now ((new_buffer n s)\<lparr>m_last_cleanup_check := now\<rparr>) = Inr s'"
    then show ?thesis
      using garbage_collect_inv pool_inv_last_check[OF new_buffer_inv[OF inv]] by blast
  qed
qed

lemma single_buffer_count:
  assumes inv: "pool_inv s" and c: "count_ok s" and run: "single_buffer n now s = Inr (h, s')"
  shows "count_ok s'"
proof -
  note d = pool_invD[OF inv]
  from single_buffer_result[OF run] show ?thesis
  proof (elim disjE conjE)
    assume i: "find_free n s < length (m_size_list s)"
      and s': "s' = take_buffer n (m_size_list s ! find_free n s) s"
    have "reusable n s (m_size_list s ! find_free n s)"
      using find_free_spec[OF d(3), of n] i by blast
    moreover have "m_size_list s ! find_free n s < length (heap s)" using d(2) i by simp
    ultimately show ?thesis using take_buffer_count[OF c] s' by (simp add: reusable_def)
  next
    assume "s' = new_buffer n s"
    then show ?thesis using new_buffer_count[OF c] by simp
  next
    assume "garbage_collect now ((new_buffer n s)\<lparr>m_last_cleanup_check := now\<rparr>) = Inr s'"
    then show ?thesis
      using garbage_collect_count count_ok_last_check[OF new_buffer_count[OF c]] by blast
  qed
qed

text \<open>A release: the record, the registry, the counter.\<close>

lemma released_record_inv:
  assumes inv: "pool_inv s"
  shows "pool_inv (s\<lparr>heap := (heap s)[i := released now (heap s ! i)]\<rparr>)"
proof -
  note d = pool_invD[OF inv]
  let ?hp = "(heap s)[i := released now (heap s ! i)]"
  have al: "m_allocated (?hp ! q) = m_allocated (heap s ! q)" for q
    by (cases "q = i"; cases "i < length (heap s)") (simp_all add: list_update_beyond released_def)
  have us: "m_in_use (?hp ! q) \<Longrightarrow> m_in_use (heap s ! q)" for q
    by (cases "q = i"; cases "i < length (heap s)") (simp_all add: list_update_beyond released_def)
  show ?thesis
  proof (rule pool_invI)
    show "sorted (map (\<lambda>q. m_allocated (heap (s\<lparr>heap := ?hp\<rparr>) ! q)) (m_size_list (s\<lparr>heap := ?hp\<rparr>)))"
      by (simp del: list_update.simps) (rule sorted_allocated_cong[OF d(3)], simp add: al)
    show "\<forall>q < length (heap (s\<lparr>heap := ?hp\<rparr>)). m_in_use (heap (s\<lparr>heap := ?hp\<rparr>) ! q)
        \<longrightarrow> q \<in> set (m_size_list (s\<lparr>heap := ?hp\<rparr>))"
    proof (intro allI impI)
      fix q assume "q < length (heap (s\<lparr>heap := ?hp\<rparr>))" "m_in_use (heap (s\<lparr>heap := ?hp\<rparr>) ! q)"
      then have "q < length (heap s)" "m_in_use (heap s ! q)" using us[of q] by simp_all
      then show "q \<in> set (m_size_list (s\<lparr>heap := ?hp\<rparr>))" using d(6) by simp
    qed
    show "\<forall>q \<in> set (m_size_list (s\<lparr>heap := ?hp\<rparr>)). m_buffers (s\<lparr>heap := ?hp\<rparr>) q = None
        \<longrightarrow> m_allocated (heap (s\<lparr>heap := ?hp\<rparr>) ! q) = 0"
      using d(7) by (simp add: al)
    show "m_initialized (s\<lparr>heap := ?hp\<rparr>)" using d(1) by simp
    show "\<forall>q \<in> set (m_size_list (s\<lparr>heap := ?hp\<rparr>)). q < length (heap (s\<lparr>heap := ?hp\<rparr>))"
      using d(2) by simp
    show "\<forall>q < length (heap (s\<lparr>heap := ?hp\<rparr>)). m_buffers (s\<lparr>heap := ?hp\<rparr>) q \<noteq> None
        \<longrightarrow> q \<in> set (m_size_list (s\<lparr>heap := ?hp\<rparr>))"
      using d(4) by simp
    show "distinct (m_size_list (s\<lparr>heap := ?hp\<rparr>))" using d(5) by simp
  qed
qed

lemma registered_inv:
  assumes inv: "pool_inv s" and i: "i \<in> set (m_size_list s)"
  shows "pool_inv (s\<lparr>m_buffers := (m_buffers s)(i \<mapsto> True)\<rparr>)"
proof -
  note d = pool_invD[OF inv]
  show ?thesis
  proof (rule pool_invI)
    show "\<forall>q < length (heap (s\<lparr>m_buffers := (m_buffers s)(i \<mapsto> True)\<rparr>)).
        m_buffers (s\<lparr>m_buffers := (m_buffers s)(i \<mapsto> True)\<rparr>) q \<noteq> None
        \<longrightarrow> q \<in> set (m_size_list (s\<lparr>m_buffers := (m_buffers s)(i \<mapsto> True)\<rparr>))"
      using d(4) i by simp
    show "\<forall>q \<in> set (m_size_list (s\<lparr>m_buffers := (m_buffers s)(i \<mapsto> True)\<rparr>)).
        m_buffers (s\<lparr>m_buffers := (m_buffers s)(i \<mapsto> True)\<rparr>) q = None
        \<longrightarrow> m_allocated (heap (s\<lparr>m_buffers := (m_buffers s)(i \<mapsto> True)\<rparr>) ! q) = 0"
      using d(7) by simp
    show "m_initialized (s\<lparr>m_buffers := (m_buffers s)(i \<mapsto> True)\<rparr>)" using d(1) by simp
    show "\<forall>q \<in> set (m_size_list (s\<lparr>m_buffers := (m_buffers s)(i \<mapsto> True)\<rparr>)).
        q < length (heap (s\<lparr>m_buffers := (m_buffers s)(i \<mapsto> True)\<rparr>))"
      using d(2) by simp
    show "sorted (map (\<lambda>q. m_allocated (heap (s\<lparr>m_buffers := (m_buffers s)(i \<mapsto> True)\<rparr>) ! q))
        (m_size_list (s\<lparr>m_buffers := (m_buffers s)(i \<mapsto> True)\<rparr>)))"
      using d(3) by simp
    show "distinct (m_size_list (s\<lparr>m_buffers := (m_buffers s)(i \<mapsto> True)\<rparr>))" using d(5) by simp
    show "\<forall>q < length (heap (s\<lparr>m_buffers := (m_buffers s)(i \<mapsto> True)\<rparr>)).
        m_in_use (heap (s\<lparr>m_buffers := (m_buffers s)(i \<mapsto> True)\<rparr>) ! q)
        \<longrightarrow> q \<in> set (m_size_list (s\<lparr>m_buffers := (m_buffers s)(i \<mapsto> True)\<rparr>))"
      using d(6) by simp
  qed
qed

lemma pool_inv_counter: "pool_inv (s\<lparr>m_buffers_in_use := c\<rparr>) = pool_inv s"
  by (rule pool_inv_cong) simp_all

lemma release_one_checked_inv: "pool_inv s \<Longrightarrow> pool_inv (release_one_checked now h s)"
proof (cases "deref s h")
  case None
  assume "pool_inv s"
  then show ?thesis using None by (simp add: release_one_checked_def)
next
  case (Some b)
  assume inv: "pool_inv s"
  from Some obtain i where i: "h = Some i" "i < length (heap s)" "b = heap s ! i"
    by (auto simp: deref_def split: option.splits if_splits)
  have "release_one_checked now h s = (if m_in_use b
      then (s\<lparr>heap := (heap s)[i := released now (heap s ! i)]\<rparr>)
              \<lparr>m_buffers_in_use := m_buffers_in_use s - 1\<rparr>
      else s)"
    using Some i by (simp add: release_one_checked_def released_def)
  then show ?thesis using inv released_record_inv[OF inv, of i now]
    by (simp add: pool_inv_counter)
qed

lemma release_buffers_checked_inv:
  "pool_inv s \<Longrightarrow> pool_inv (snd (release_buffers_checked hs now s))"
proof (induction hs arbitrary: s)
  case Nil
  then show ?case by (simp add: release_buffers_checked_def)
next
  case (Cons h hs)
  have "pool_inv (release_one_checked now h s)" using Cons.prems by (rule release_one_checked_inv)
  then have "pool_inv (snd (release_buffers_checked hs now (release_one_checked now h s)))"
    by (rule Cons.IH)
  then show ?case by (simp add: release_buffers_checked_def)
qed

lemma release_buffer_checked_inv:
  assumes inv: "pool_inv s"
  shows "pool_inv (snd (release_buffer_checked h now s))"
proof (cases "deref s h")
  case None
  then show ?thesis using inv by (simp add: release_buffer_checked_def)
next
  case (Some b)
  from Some obtain i where i: "h = Some i" "i < length (heap s)" "b = heap s ! i"
    by (auto simp: deref_def split: option.splits if_splits)
  show ?thesis
  proof (cases "m_in_use b")
    case False
    then show ?thesis using inv Some by (simp add: release_buffer_checked_def)
  next
    case True
    then have mem: "i \<in> set (m_size_list s)" using pool_invD(6)[OF inv] i by blast
    let ?s1 = "s\<lparr>heap := (heap s)[i := released now (heap s ! i)]\<rparr>"
    have 1: "pool_inv ?s1" using released_record_inv[OF inv] .
    have 2: "pool_inv (?s1\<lparr>m_buffers := (m_buffers ?s1)(i \<mapsto> True)\<rparr>)"
      using registered_inv[OF 1, of i] mem by simp
    have "snd (release_buffer_checked h now s)
        = (?s1\<lparr>m_buffers := (m_buffers ?s1)(i \<mapsto> True)\<rparr>)\<lparr>m_buffers_in_use := m_buffers_in_use s - 1\<rparr>"
      using Some i True by (simp add: release_buffer_checked_def released_def)
    then show ?thesis using 2 by (simp only: pool_inv_counter)
  qed
qed

lemma release_one_checked_count:
  "count_ok s \<Longrightarrow> count_ok (release_one_checked now h s)"
proof (cases "deref s h")
  case None
  assume "count_ok s"
  then show ?thesis using None by (simp add: release_one_checked_def)
next
  case (Some b)
  assume c: "count_ok s"
  from Some obtain i where i: "h = Some i" "i < length (heap s)" "b = heap s ! i"
    by (auto simp: deref_def split: option.splits if_splits)
  show ?thesis
  proof (cases "m_in_use b")
    case False
    then show ?thesis using c Some by (simp add: release_one_checked_def)
  next
    case True
    have "Suc (length (filter m_in_use ((heap s)[i := released now (heap s ! i)])))
        = length (filter m_in_use (heap s))"
      using i True by (intro filter_length_clear) (simp_all add: released_def)
    then show ?thesis using c Some i True
      by (simp add: release_one_checked_def count_ok_def records_in_use_def released_def)
  qed
qed

lemma release_buffers_checked_count:
  "count_ok s \<Longrightarrow> count_ok (snd (release_buffers_checked hs now s))"
proof (induction hs arbitrary: s)
  case Nil
  then show ?case by (simp add: release_buffers_checked_def)
next
  case (Cons h hs)
  have "count_ok (release_one_checked now h s)" using Cons.prems by (rule release_one_checked_count)
  then have "count_ok (snd (release_buffers_checked hs now (release_one_checked now h s)))"
    by (rule Cons.IH)
  then show ?case by (simp add: release_buffers_checked_def)
qed

text \<open>The single release differs from one iteration of the batch in the registry only.\<close>

lemma release_buffer_checked_one:
  "heap (snd (release_buffer_checked h now s)) = heap (release_one_checked now h s)"
  "m_buffers_in_use (snd (release_buffer_checked h now s))
     = m_buffers_in_use (release_one_checked now h s)"
  by (simp_all add: release_buffer_checked_def release_one_checked_def split: option.splits)

lemma release_buffer_checked_count:
  assumes "count_ok s"
  shows "count_ok (snd (release_buffer_checked h now s))"
  using release_one_checked_count[OF assms, of now h]
  by (simp add: count_ok_def records_in_use_def release_buffer_checked_one)

text \<open>\<open>reset\<close> keeps the invariant: every record of the free index ends with capacity 0.\<close>

lemma reset_heap_nth:
  "q < length (heap s) \<Longrightarrow>
     heap (reset s) ! q = (if m_buffers s q \<noteq> None then Buffer_reset (heap s ! q) else heap s ! q)"
  by (simp add: reset_def del: not_None_eq)

lemma reset_inv:
  assumes inv: "pool_inv s"
  shows "pool_inv (reset s)"
proof -
  note d = pool_invD[OF inv]
  have len: "length (heap (reset s)) = length (heap s)" by (simp add: reset_def)
  have same: "m_size_list (reset s) = m_size_list s" "m_buffers (reset s) = Map.empty"
    "m_initialized (reset s) = m_initialized s"
    by (simp_all add: reset_def)
  have zero: "m_allocated (heap (reset s) ! q) = 0" if "q \<in> set (m_size_list s)" for q
  proof -
    have q: "q < length (heap s)" using d(2) that by blast
    show ?thesis
    proof (cases "m_buffers s q")
      case None
      then show ?thesis using d(7) that q by (simp add: reset_heap_nth)
    next
      case (Some v)
      then show ?thesis using q by (simp add: reset_heap_nth Buffer_reset_def)
    qed
  qed
  show ?thesis
  proof (rule pool_invI)
    show "m_initialized (reset s)" using d(1) by (simp add: same)
    show "\<forall>p \<in> set (m_size_list (reset s)). p < length (heap (reset s))"
      using d(2) by (simp add: same len)
    have "map (\<lambda>p. m_allocated (heap (reset s) ! p)) (m_size_list s)
        = map (\<lambda>p. 0) (m_size_list s)"
      using zero by simp
    then show "sorted (map (\<lambda>p. m_allocated (heap (reset s) ! p)) (m_size_list (reset s)))"
      by (simp add: same map_replicate_const)
    show "\<forall>p < length (heap (reset s)). m_buffers (reset s) p \<noteq> None
        \<longrightarrow> p \<in> set (m_size_list (reset s))"
      by (simp add: same)
    show "distinct (m_size_list (reset s))" using d(5) by (simp add: same)
    show "\<forall>p < length (heap (reset s)). m_in_use (heap (reset s) ! p)
        \<longrightarrow> p \<in> set (m_size_list (reset s))"
    proof (intro allI impI)
      fix p assume p: "p < length (heap (reset s))" and u: "m_in_use (heap (reset s) ! p)"
      have "m_in_use (heap s ! p)"
        using p u len by (cases "m_buffers s p") (simp_all add: reset_heap_nth Buffer_reset_def)
      then show "p \<in> set (m_size_list (reset s))" using d(6) p len by (simp add: same)
    qed
    show "\<forall>p \<in> set (m_size_list (reset s)). m_buffers (reset s) p = None
        \<longrightarrow> m_allocated (heap (reset s) ! p) = 0"
      using zero by (simp add: same)
  qed
qed

text \<open>The configuration calls assign neither the records nor the containers.\<close>

lemma set_policy_inv: "pool_inv (set_policy p s) = pool_inv s"
  by (rule pool_inv_cong) (simp_all add: set_policy_def)

lemma set_policies_inv: "pool_inv (set_policies ps s) = pool_inv s"
  unfolding set_policies_def by (induction ps arbitrary: s) (simp_all add: set_policy_inv)

lemma clear_policy_inv: "pool_inv (clear_policy p s) = pool_inv s"
  by (rule pool_inv_cong) (simp_all add: clear_policy_def)

lemma set_cleanup_timeout_inv: "pool_inv (set_cleanup_timeout seconds now s) = pool_inv s"
  by (rule pool_inv_cong) (simp_all add: set_cleanup_timeout_def set_policy_def)

lemma initialize_inv: "pool_inv s \<Longrightarrow> pool_inv (initialize s)"
  using pool_invD(1)[of s] pool_inv_cong[of "initialize s" s] by (simp add: initialize_def)

lemma count_ok_cong:
  "heap s' = heap s \<Longrightarrow> m_buffers_in_use s' = m_buffers_in_use s \<Longrightarrow> count_ok s' = count_ok s"
  by (simp add: count_ok_def records_in_use_def)

lemma set_policies_fields:
  "heap (set_policies ps s) = heap s" "m_buffers_in_use (set_policies ps s) = m_buffers_in_use s"
  unfolding set_policies_def by (induction ps arbitrary: s) (simp_all add: set_policy_def)

text \<open>Every pool the interface leads to satisfies the invariant, so it is well-formed.\<close>

lemma reachable_inv: "reachable r s \<Longrightarrow> pool_inv s"
proof (induction rule: reachable.induct)
  case (reach_initialize r)
  then show ?case using pool_inv_ready by (simp add: pool_ready_def)
next
  case (reach_single_buffer r s n now h s')
  then show ?case using single_buffer_inv by blast
qed (simp_all add: initialize_inv set_cleanup_timeout_inv set_policy_inv set_policies_inv
    clear_policy_inv reset_inv release_buffer_checked_inv release_buffers_checked_inv)

lemma reachable_wf: "reachable r s \<Longrightarrow> pool_wf s"
  using reachable_inv pool_inv_wf by blast

text \<open>
  Without \<open>reset\<close>, after every sequence of calls the counter is the number of
  records in use.
\<close>

lemma reachable_count_ok: "reachable False s \<Longrightarrow> count_ok s"
proof (induction "False" s rule: reachable.induct)
  case reach_initialize
  then show ?case using pool_inv_ready by (simp add: pool_ready_def)
next
  case (reach_single_buffer s n now h s')
  then show ?case using single_buffer_count reachable_inv by blast
next
  case (reach_release_buffer s h now)
  then show ?case by (simp add: release_buffer_checked_count)
next
  case (reach_release_buffers s hs now)
  then show ?case by (simp add: release_buffers_checked_count)
next
  case (reach_initialize_again s)
  then show ?case using count_ok_cong[of "initialize s" s] by (simp add: initialize_def)
next
  case (reach_set_cleanup_timeout s seconds now)
  then show ?case using count_ok_cong[of "set_cleanup_timeout seconds now s" s]
    by (simp add: set_cleanup_timeout_def set_policy_def)
next
  case (reach_set_policy s p)
  then show ?case using count_ok_cong[of "set_policy p s" s] by (simp add: set_policy_def)
next
  case (reach_set_policies s ps)
  then show ?case using count_ok_cong[of "set_policies ps s" s] by (simp add: set_policies_fields)
next
  case (reach_clear_policy s p)
  then show ?case using count_ok_cong[of "clear_policy p s" s] by (simp add: clear_policy_def)
qed simp_all

lemma reachable_counter:
  "reachable False s \<Longrightarrow> m_buffers_in_use s = int (records_in_use s)"
  using reachable_count_ok by (simp add: count_ok_def)

section \<open>Release, lines 292-371\<close>

text \<open>
  The guarded release reports success on every handle, changes nothing when the handle
  is null or its record is free, and so gives the same pool when repeated.
\<close>

lemma release_buffer_checked_success: "fst (release_buffer_checked h now s) = True"
  by (simp add: release_buffer_checked_def split: option.splits)

lemma release_buffer_checked_noop:
  "buffer_in_use h s = False \<Longrightarrow> release_buffer_checked h now s = (True, s)"
  by (simp add: release_buffer_checked_def buffer_in_use_def split: option.splits)

lemma release_buffer_checked_frees:
  "buffer_in_use h (snd (release_buffer_checked h now s)) = False"
  by (auto simp: release_buffer_checked_def buffer_in_use_def deref_def split: option.splits)

lemma release_buffer_checked_idem:
  "release_buffer_checked h now' (snd (release_buffer_checked h now s))
     = release_buffer_checked h now s"
proof -
  have "release_buffer_checked h now' (snd (release_buffer_checked h now s))
      = (True, snd (release_buffer_checked h now s))"
    using release_buffer_checked_frees by (rule release_buffer_checked_noop)
  then show ?thesis using release_buffer_checked_success[of h now s]
    by (cases "release_buffer_checked h now s") simp
qed

text \<open>
  The unguarded release operations keep the invariant as well, as long as
  \<open>release_buffer\<close> is given a handle of the free index: only a handle that a sweep
  has dropped can bring a key into the registry that the free index does not hold.
\<close>

lemma release_one_inv:
  assumes inv: "pool_inv s" and run: "release_one now h s = Inr s'"
  shows "pool_inv s'"
proof -
  note f = release_one_fields[OF run]
  from f(1) obtain i where i: "heap s' = (heap s)[i := released now (heap s ! i)]" by blast
  have "pool_inv s' = pool_inv (s\<lparr>heap := (heap s)[i := released now (heap s ! i)]\<rparr>)"
    using i f(3,4,8) by (intro pool_inv_cong) simp_all
  then show ?thesis using released_record_inv[OF inv] by simp
qed

lemma release_loop_inv:
  "pool_inv s \<Longrightarrow> release_loop now hs s = Inr s' \<Longrightarrow> pool_inv s'"
proof (induction hs arbitrary: s)
  case Nil
  then show ?case by simp
next
  case (Cons h hs)
  from Cons.prems(2) obtain s1 where 1: "release_one now h s = Inr s1"
    and 2: "release_loop now hs s1 = Inr s'"
    by (auto split: sum.splits)
  have "pool_inv s1" using Cons.prems(1) 1 by (rule release_one_inv)
  then show ?case using 2 by (rule Cons.IH)
qed

lemma release_buffers_inv:
  "pool_inv s \<Longrightarrow> release_buffers hs now s = Inr (ok, s') \<Longrightarrow> pool_inv s'"
  using release_loop_inv by (auto simp: release_buffers_def split: sum.splits)

lemma release_buffer_inv:
  assumes inv: "pool_inv s" and run: "release_buffer (Some i) now s = Inr (ok, s')"
    and mem: "i \<in> set (m_size_list s)"
  shows "pool_inv s'"
proof -
  let ?s1 = "s\<lparr>heap := (heap s)[i := released now (heap s ! i)]\<rparr>"
  have 1: "pool_inv ?s1" using released_record_inv[OF inv] .
  have 2: "pool_inv (?s1\<lparr>m_buffers := (m_buffers ?s1)(i \<mapsto> True)\<rparr>)"
    using registered_inv[OF 1, of i] mem by simp
  have "s' = (?s1\<lparr>m_buffers := (m_buffers ?s1)(i \<mapsto> True)\<rparr>)\<lparr>m_buffers_in_use := m_buffers_in_use s - 1\<rparr>"
    using run by (auto simp: release_buffer_def deref_def released_def split: if_splits)
  then show ?thesis using 2 by (simp only: pool_inv_counter)
qed

section \<open>The pools of the examples\<close>

text \<open>
  The pools used as examples are pools the interface leads to: \<open>pool_gc\<close> comes from
  \<open>set_cleanup_timeout 5\<close>, three acquisitions of 10, 20 and 30 bytes at time 0, and
  the release of the second buffer at time 1 and of the third at time 9.
\<close>

lemma pool_gc_steps:
  "single_buffer 10 0 (set_cleanup_timeout 5 0 pool_ready)
     = Inr (Some 0, new_buffer 10 (set_cleanup_timeout 5 0 pool_ready))"
  "single_buffer 20 0 (new_buffer 10 (set_cleanup_timeout 5 0 pool_ready))
     = Inr (Some 1, new_buffer 20 (new_buffer 10 (set_cleanup_timeout 5 0 pool_ready)))"
  "single_buffer 30 0 (new_buffer 20 (new_buffer 10 (set_cleanup_timeout 5 0 pool_ready)))
     = Inr (Some 2, new_buffer 30 (new_buffer 20 (new_buffer 10 (set_cleanup_timeout 5 0 pool_ready))))"
  by (simp_all add: single_buffer_def single_buffer_unprotected_def pool_ready_def initialize_def
      static_init_def set_cleanup_timeout_def set_policy_def find_free_def lower_bound_def
      lower_bound_from.simps skip_in_use.simps new_buffer_def cleanup_due_def Let_def
      fresh_buffer_def Buffer_new_def sort_by_allocated_def)

lemma pool_gc_released:
  "snd (release_buffer_checked (Some 2) 9 (snd (release_buffer_checked (Some 1) 1
      (new_buffer 30 (new_buffer 20 (new_buffer 10 (set_cleanup_timeout 5 0 pool_ready)))))))
     = pool_gc"
  by (simp add: pool_ready_def initialize_def static_init_def set_cleanup_timeout_def
      set_policy_def new_buffer_def Let_def fresh_buffer_def Buffer_new_def sort_by_allocated_def
      release_buffer_checked_def deref_def pool_gc_def insert_commute numeral_2_eq_2[symmetric])

lemma pool_gc_reachable: "reachable False pool_gc"
proof -
  let ?s0 = "set_cleanup_timeout 5 0 pool_ready"
  have 0: "reachable False ?s0"
    unfolding pool_ready_def by (rule reach_set_cleanup_timeout) (rule reach_initialize)
  have 1: "reachable False (new_buffer 10 ?s0)"
    by (rule reach_single_buffer[OF 0 pool_gc_steps(1)])
  have 2: "reachable False (new_buffer 20 (new_buffer 10 ?s0))"
    by (rule reach_single_buffer[OF 1 pool_gc_steps(2)])
  have 3: "reachable False (new_buffer 30 (new_buffer 20 (new_buffer 10 ?s0)))"
    by (rule reach_single_buffer[OF 2 pool_gc_steps(3)])
  have "reachable False (snd (release_buffer_checked (Some 2) 9
      (snd (release_buffer_checked (Some 1) 1 (new_buffer 30 (new_buffer 20 (new_buffer 10 ?s0)))))))"
    by (rule reach_release_buffer) (rule reach_release_buffer, rule 3)
  then show ?thesis by (simp only: pool_gc_released)
qed

lemma scenario_reachable:
  "reachable False pool_A" "reachable False pool_A_released" "reachable False pool_B"
proof -
  have 0: "reachable False pool_ready" unfolding pool_ready_def by (rule reach_initialize)
  show 1: "reachable False pool_A" by (rule reach_single_buffer[OF 0 scenario_A])
  have "release_buffer_checked (Some 0) 6 pool_A = (True, pool_A_released)"
    by (simp add: release_buffer_checked_def deref_def pool_A_def pool_A_released_def buffer_A_def)
  then have "snd (release_buffer_checked (Some 0) 6 pool_A) = pool_A_released" by simp
  then show 2: "reachable False pool_A_released"
    using reach_release_buffer[OF 1, of "Some 0" 6] by simp
  show "reachable False pool_B" by (rule reach_single_buffer[OF 2 scenario_B])
qed

section \<open>The free index stays sorted\<close>

lemma index_invI:
  assumes "m_initialized s" "\<forall>p \<in> set (m_size_list s). p < length (heap s)"
    "sorted (map (\<lambda>p. m_allocated (heap s ! p)) (m_size_list s))"
    "distinct (m_size_list s)"
    "\<forall>p \<in> set (m_size_list s). m_buffers s p = None \<longrightarrow> m_allocated (heap s ! p) = 0"
  shows "index_inv s"
  using assms unfolding index_inv_def by blast

lemma index_invD:
  assumes "index_inv s"
  shows "m_initialized s" "\<forall>p \<in> set (m_size_list s). p < length (heap s)"
    "sorted (map (\<lambda>p. m_allocated (heap s ! p)) (m_size_list s))"
    "distinct (m_size_list s)"
    "\<forall>p \<in> set (m_size_list s). m_buffers s p = None \<longrightarrow> m_allocated (heap s ! p) = 0"
  using assms unfolding index_inv_def by blast+

lemma index_inv_cong:
  "heap s' = heap s \<Longrightarrow> m_buffers s' = m_buffers s \<Longrightarrow> m_size_list s' = m_size_list s
     \<Longrightarrow> m_initialized s' = m_initialized s \<Longrightarrow> index_inv s' = index_inv s"
  by (simp add: index_inv_def)

lemma index_inv_ready: "index_inv (initialize static_init)"
  by (simp add: index_inv_def initialize_def static_init_def)

text \<open>
  A change of the records that keeps every capacity, together with new keys in the
  registry, keeps the invariant. This covers the reuse branch and all four releases.
\<close>

lemma index_inv_records:
  assumes inv: "index_inv s"
    and len: "length hp = length (heap s)"
    and cap: "\<forall>q < length (heap s). m_allocated (hp ! q) = m_allocated (heap s ! q)"
    and reg: "\<forall>q. m_buffers s q \<noteq> None \<longrightarrow> m q \<noteq> None"
    and s': "heap s' = hp" "m_buffers s' = m" "m_size_list s' = m_size_list s"
      "m_initialized s' = m_initialized s"
  shows "index_inv s'"
proof -
  note d = index_invD[OF inv]
  have capi: "m_allocated (hp ! q) = m_allocated (heap s ! q)" if "q \<in> set (m_size_list s)" for q
    using cap d(2) that by blast
  show ?thesis
  proof (rule index_invI)
    show "m_initialized s'" using d(1) s' by simp
    show "\<forall>p \<in> set (m_size_list s'). p < length (heap s')" using d(2) s' len by simp
    show "sorted (map (\<lambda>p. m_allocated (heap s' ! p)) (m_size_list s'))"
      unfolding s' by (rule sorted_allocated_cong[OF d(3)]) (simp add: capi)
    show "distinct (m_size_list s')" using d(4) s' by simp
    show "\<forall>p \<in> set (m_size_list s'). m_buffers s' p = None \<longrightarrow> m_allocated (heap s' ! p) = 0"
    proof (intro ballI impI)
      fix p assume p: "p \<in> set (m_size_list s')" and n: "m_buffers s' p = None"
      then have "p \<in> set (m_size_list s)" "m_buffers s p = None" using s' reg by auto
      then have "m_allocated (heap s ! p) = 0" using d(5) by blast
      then show "m_allocated (heap s' ! p) = 0" using capi \<open>p \<in> set (m_size_list s)\<close> s' by simp
    qed
  qed
qed

lemma nth_update_same:
  "f y = f (xs ! p) \<Longrightarrow> f (xs[p := y] ! q) = f (xs ! q)"
  by (cases "p < length xs"; cases "q = p") (simp_all add: list_update_beyond)

lemma take_buffer_index_inv:
  assumes "index_inv s"
  shows "index_inv (take_buffer n p s)"
proof (rule index_inv_records[OF assms])
  let ?b = "(heap s ! p)\<lparr>m_in_use := True, m_data_size := n,
      m_usage_count := m_usage_count (heap s ! p) + 1\<rparr>"
  show "heap (take_buffer n p s) = (heap s)[p := ?b]" by (simp add: take_buffer_def)
  show "\<forall>q < length (heap s). m_allocated ((heap s)[p := ?b] ! q) = m_allocated (heap s ! q)"
    by (simp add: nth_update_same)
  show "m_buffers (take_buffer n p s) = m_buffers s" by (simp add: take_buffer_def)
qed (simp_all add: take_buffer_def)

lemma released_index_inv:
  assumes "index_inv s"
    and "heap s' = (heap s)[i := released now (heap s ! i)]"
    and "\<forall>q. m_buffers s q \<noteq> None \<longrightarrow> m_buffers s' q \<noteq> None"
    and "m_size_list s' = m_size_list s" "m_initialized s' = m_initialized s"
  shows "index_inv s'"
proof (rule index_inv_records[OF assms(1)])
  show "heap s' = (heap s)[i := released now (heap s ! i)]" by (rule assms(2))
  show "\<forall>q < length (heap s). m_allocated ((heap s)[i := released now (heap s ! i)] ! q)
      = m_allocated (heap s ! q)"
    by (simp add: nth_update_same released_def)
  show "m_buffers s' = m_buffers s'" by simp
  show "\<forall>q. m_buffers s q \<noteq> None \<longrightarrow> m_buffers s' q \<noteq> None" by (rule assms(3))
qed (simp_all add: assms)

text \<open>The fresh-allocation branch: this is where the index is sorted again.\<close>

lemma new_buffer_index_inv:
  assumes inv: "index_inv s"
  shows "index_inv (new_buffer n s)"
proof -
  note d = index_invD[OF inv]
  let ?hp = "heap s @ [fresh_buffer (m_policies s) n]"
  have fresh: "length (heap s) \<notin> set (m_size_list s)" using d(2) by auto
  have old: "?hp ! q = heap s ! q" if "q < length (heap s)" for q
    using that by (simp add: nth_append)
  show ?thesis
  proof (rule index_invI)
    show "m_initialized (new_buffer n s)" using d(1) by (simp add: new_buffer_fields)
    show "\<forall>q \<in> set (m_size_list (new_buffer n s)). q < length (heap (new_buffer n s))"
      using d(2) by (auto simp: set_new_buffer_size_list new_buffer_fields(1))
    show "sorted (map (\<lambda>q. m_allocated (heap (new_buffer n s) ! q)) (m_size_list (new_buffer n s)))"
      by (simp add: new_buffer_fields sort_by_allocated_def del: sort_key_simps)
    show "distinct (m_size_list (new_buffer n s))"
      using d(4) fresh by (simp add: new_buffer_fields sort_by_allocated_def)
    show "\<forall>q \<in> set (m_size_list (new_buffer n s)). m_buffers (new_buffer n s) q = None
        \<longrightarrow> m_allocated (heap (new_buffer n s) ! q) = 0"
      using d(5) d(2) old by (auto simp: set_new_buffer_size_list new_buffer_fields(1,2))
  qed
qed

text \<open>A sweep that returns has taken every record it dropped out of the index.\<close>

lemma garbage_collect_index_inv:
  assumes inv: "index_inv s" and gc: "garbage_collect t s = Inr s'"
  shows "index_inv s'"
proof -
  note d = index_invD[OF inv]
  note r = garbage_collect_result[OF gc]
  let ?d = "buffers_to_drop t s"
  have sets: "set (m_size_list s') = set (m_size_list s) - set ?d" using r(12) d(4) by simp
  show ?thesis
  proof (rule index_invI)
    show "m_initialized s'" using r(6) d(1) by simp
    show "\<forall>p \<in> set (m_size_list s'). p < length (heap s')" using r(1) r(8) d(2) by auto
    show "sorted (map (\<lambda>p. m_allocated (heap s' ! p)) (m_size_list s'))"
      unfolding r(1) using d(3) by (rule garbage_collect_result(10)[OF gc])
    show "distinct (m_size_list s')" using r(11) d(4) by simp
    show "\<forall>p \<in> set (m_size_list s'). m_buffers s' p = None \<longrightarrow> m_allocated (heap s' ! p) = 0"
      unfolding r(1) sets using d(5) r(7) by (auto split: if_splits)
  qed
qed

lemma index_inv_last_check: "index_inv (s\<lparr>m_last_cleanup_check := now\<rparr>) = index_inv s"
  by (rule index_inv_cong) simp_all

lemma single_buffer_index_inv:
  assumes inv: "index_inv s" and run: "single_buffer n now s = Inr (h, s')"
  shows "index_inv s'"
proof -
  from single_buffer_result[OF run] show ?thesis
  proof (elim disjE conjE)
    assume "s' = take_buffer n (m_size_list s ! find_free n s) s"
    then show ?thesis using take_buffer_index_inv[OF inv] by simp
  next
    assume "s' = new_buffer n s"
    then show ?thesis using new_buffer_index_inv[OF inv] by simp
  next
    assume "garbage_collect now ((new_buffer n s)\<lparr>m_last_cleanup_check := now\<rparr>) = Inr s'"
    moreover have "index_inv ((new_buffer n s)\<lparr>m_last_cleanup_check := now\<rparr>)"
      using new_buffer_index_inv[OF inv] by (simp only: index_inv_last_check)
    ultimately show ?thesis using garbage_collect_index_inv by blast
  qed
qed

text \<open>The releases of both revisions.\<close>

lemma release_buffer_index_inv:
  assumes inv: "index_inv s" and run: "release_buffer h now s = Inr (ok, s')"
  shows "index_inv s'"
proof -
  from run obtain i where i: "h = Some i" "i < length (heap s)"
    and s': "s' = s\<lparr>heap := (heap s)[i := released now (heap s ! i)],
              m_buffers := (m_buffers s)(i \<mapsto> True),
              m_buffers_in_use := m_buffers_in_use s - 1\<rparr>"
    by (auto simp: release_buffer_def deref_def released_def split: option.splits if_splits)
  show ?thesis by (rule released_index_inv[OF inv, of _ i now]) (simp_all add: s' del: not_None_eq)
qed

lemma release_one_index_inv:
  assumes inv: "index_inv s" and run: "release_one now h s = Inr s'"
  shows "index_inv s'"
proof -
  note f = release_one_fields[OF run]
  from f(1) obtain i where i: "heap s' = (heap s)[i := released now (heap s ! i)]" by blast
  show ?thesis by (rule released_index_inv[OF inv i]) (simp_all add: f)
qed

lemma release_loop_index_inv:
  "index_inv s \<Longrightarrow> release_loop now hs s = Inr s' \<Longrightarrow> index_inv s'"
proof (induction hs arbitrary: s)
  case Nil
  then show ?case by simp
next
  case (Cons h hs)
  from Cons.prems(2) obtain s1 where 1: "release_one now h s = Inr s1"
    and 2: "release_loop now hs s1 = Inr s'"
    by (auto split: sum.splits)
  have "index_inv s1" using Cons.prems(1) 1 by (rule release_one_index_inv)
  then show ?case using 2 by (rule Cons.IH)
qed

lemma release_buffers_index_inv:
  "index_inv s \<Longrightarrow> release_buffers hs now s = Inr (ok, s') \<Longrightarrow> index_inv s'"
  using release_loop_index_inv by (auto simp: release_buffers_def split: sum.splits)

lemma release_one_checked_index_inv:
  assumes inv: "index_inv s"
  shows "index_inv (release_one_checked now h s)"
proof (cases "deref s h")
  case None
  then show ?thesis using inv by (simp add: release_one_checked_def)
next
  case (Some b)
  from Some obtain i where i: "h = Some i" "i < length (heap s)" "b = heap s ! i"
    by (auto simp: deref_def split: option.splits if_splits)
  show ?thesis
  proof (cases "m_in_use b")
    case False
    then show ?thesis using inv Some by (simp add: release_one_checked_def)
  next
    case True
    show ?thesis
      by (rule released_index_inv[OF inv, of _ i now])
        (use Some i True in \<open>simp_all add: release_one_checked_def released_def\<close>)
  qed
qed

lemma release_buffers_checked_index_inv:
  "index_inv s \<Longrightarrow> index_inv (snd (release_buffers_checked hs now s))"
proof (induction hs arbitrary: s)
  case Nil
  then show ?case by (simp add: release_buffers_checked_def)
next
  case (Cons h hs)
  have "index_inv (release_one_checked now h s)"
    using Cons.prems by (rule release_one_checked_index_inv)
  then have "index_inv (snd (release_buffers_checked hs now (release_one_checked now h s)))"
    by (rule Cons.IH)
  then show ?case by (simp add: release_buffers_checked_def)
qed

lemma release_buffer_checked_index_inv:
  assumes inv: "index_inv s"
  shows "index_inv (snd (release_buffer_checked h now s))"
proof (cases "deref s h")
  case None
  then show ?thesis using inv by (simp add: release_buffer_checked_def)
next
  case (Some b)
  from Some obtain i where i: "h = Some i" "i < length (heap s)" "b = heap s ! i"
    by (auto simp: deref_def split: option.splits if_splits)
  show ?thesis
  proof (cases "m_in_use b")
    case False
    then show ?thesis using inv Some by (simp add: release_buffer_checked_def)
  next
    case True
    show ?thesis
      by (rule released_index_inv[OF inv, of _ i now])
        (use Some i True in \<open>simp_all add: release_buffer_checked_def released_def
            del: not_None_eq\<close>)
  qed
qed

text \<open>\<open>reset\<close> leaves every record of the index with capacity 0.\<close>

lemma reset_index_inv:
  assumes inv: "index_inv s"
  shows "index_inv (reset s)"
proof -
  note d = index_invD[OF inv]
  have len: "length (heap (reset s)) = length (heap s)" by (simp add: reset_def)
  have same: "m_size_list (reset s) = m_size_list s" "m_buffers (reset s) = Map.empty"
    "m_initialized (reset s) = m_initialized s"
    by (simp_all add: reset_def)
  have zero: "m_allocated (heap (reset s) ! q) = 0" if "q \<in> set (m_size_list s)" for q
  proof -
    have q: "q < length (heap s)" using d(2) that by blast
    show ?thesis
    proof (cases "m_buffers s q")
      case None
      then show ?thesis using d(5) that q by (simp add: reset_heap_nth)
    next
      case (Some v)
      then show ?thesis using q by (simp add: reset_heap_nth Buffer_reset_def)
    qed
  qed
  show ?thesis
  proof (rule index_invI)
    show "m_initialized (reset s)" using d(1) by (simp add: same)
    show "\<forall>p \<in> set (m_size_list (reset s)). p < length (heap (reset s))"
      using d(2) by (simp add: same len)
    have "map (\<lambda>p. m_allocated (heap (reset s) ! p)) (m_size_list s)
        = map (\<lambda>p. 0) (m_size_list s)"
      using zero by simp
    then show "sorted (map (\<lambda>p. m_allocated (heap (reset s) ! p)) (m_size_list (reset s)))"
      by (simp add: same map_replicate_const)
    show "distinct (m_size_list (reset s))" using d(4) by (simp add: same)
    show "\<forall>p \<in> set (m_size_list (reset s)). m_buffers (reset s) p = None
        \<longrightarrow> m_allocated (heap (reset s) ! p) = 0"
      using zero by (simp add: same)
  qed
qed

text \<open>Another sorted arrangement of the same handles.\<close>

lemma sort_order_index_inv:
  assumes inv: "index_inv s" and xs: "distinct xs" "set xs = set (m_size_list s)"
    "sorted (map (\<lambda>p. m_allocated (heap s ! p)) xs)"
  shows "index_inv (s\<lparr>m_size_list := xs\<rparr>)"
proof -
  note d = index_invD[OF inv]
  show ?thesis
  proof (rule index_invI)
    show "m_initialized (s\<lparr>m_size_list := xs\<rparr>)" using d(1) by simp
    show "\<forall>p \<in> set (m_size_list (s\<lparr>m_size_list := xs\<rparr>)). p < length (heap (s\<lparr>m_size_list := xs\<rparr>))"
      using d(2) xs(2) by simp
    show "sorted (map (\<lambda>p. m_allocated (heap (s\<lparr>m_size_list := xs\<rparr>) ! p))
        (m_size_list (s\<lparr>m_size_list := xs\<rparr>)))"
      using xs(3) by simp
    show "distinct (m_size_list (s\<lparr>m_size_list := xs\<rparr>))" using xs(1) by simp
    show "\<forall>p \<in> set (m_size_list (s\<lparr>m_size_list := xs\<rparr>)). m_buffers (s\<lparr>m_size_list := xs\<rparr>) p = None
        \<longrightarrow> m_allocated (heap (s\<lparr>m_size_list := xs\<rparr>) ! p) = 0"
      using d(5) xs(2) by simp
  qed
qed

lemma set_policy_index_inv: "index_inv (set_policy p s) = index_inv s"
  by (rule index_inv_cong) (simp_all add: set_policy_def)

lemma set_policies_index_inv: "index_inv (set_policies ps s) = index_inv s"
  unfolding set_policies_def by (induction ps arbitrary: s) (simp_all add: set_policy_index_inv)

lemma clear_policy_index_inv: "index_inv (clear_policy p s) = index_inv s"
  by (rule index_inv_cong) (simp_all add: clear_policy_def)

lemma set_cleanup_timeout_index_inv: "index_inv (set_cleanup_timeout seconds now s) = index_inv s"
  by (rule index_inv_cong) (simp_all add: set_cleanup_timeout_def set_policy_def)

lemma initialize_index_inv: "index_inv s \<Longrightarrow> index_inv (initialize s)"
  using index_invD(1)[of s] index_inv_cong[of "initialize s" s] by (simp add: initialize_def)

text \<open>
  Every pool the interface leads to, by the operations of either revision, has its free
  index sorted by capacity.
\<close>

lemma reachable_api_inv: "reachable_api s \<Longrightarrow> index_inv s"
proof (induction rule: reachable_api.induct)
  case api_initialize
  then show ?case by (rule index_inv_ready)
next
  case (api_single_buffer s n now h s')
  then show ?case using single_buffer_index_inv by blast
next
  case (api_release_buffer s h now ok s')
  then show ?case using release_buffer_index_inv by blast
next
  case (api_release_buffers s hs now ok s')
  then show ?case using release_buffers_index_inv by blast
next
  case (api_sort_order s xs)
  then show ?case using sort_order_index_inv by blast
qed (simp_all add: initialize_index_inv set_cleanup_timeout_index_inv set_policy_index_inv
    set_policies_index_inv clear_policy_index_inv reset_index_inv
    release_buffer_checked_index_inv release_buffers_checked_index_inv)

section \<open>Acquisition: first fit by capacity\<close>

lemma drop_buffers_error: "drop_buffers ps s = Inl e \<Longrightarrow> e = EraseAtEnd"
  by (induction ps arbitrary: s) (auto split: if_splits)

lemma garbage_collect_error: "garbage_collect t s = Inl e \<Longrightarrow> e = EraseAtEnd"
  unfolding garbage_collect_def by (rule drop_buffers_error)

text \<open>
  The search policy on a pool whose index is sorted, whatever its registry holds. The
  reuse branch runs no sweep and always returns; the fresh branch returns unless its
  sweep erases at the end of the index.
\<close>

lemma single_buffer_first_fit_sorted:
  assumes inv: "index_inv s"
  shows "if \<exists>q \<in> set (m_size_list s). reusable n s q
      then \<exists>p s'. single_buffer n now s = Inr (Some p, s')
           \<and> (\<exists>i < length (m_size_list s). m_size_list s ! i = p
              \<and> (\<forall>k < i. \<not> reusable n s (m_size_list s ! k)))
           \<and> reusable n s p
           \<and> (\<forall>q \<in> set (m_size_list s). reusable n s q
                 \<longrightarrow> m_allocated (heap s ! p) \<le> m_allocated (heap s ! q))
           \<and> heap s' = (heap s)[p := (heap s ! p)\<lparr>m_in_use := True, m_data_size := n,
                 m_usage_count := m_usage_count (heap s ! p) + 1\<rparr>]
           \<and> m_size_list s' = m_size_list s
           \<and> buffers_available s' = buffers_available s
      else (\<exists>s'. single_buffer n now s = Inr (Some (length (heap s)), s')
              \<and> length (heap s) \<notin> set (m_size_list s)
              \<and> heap s' = heap s @ [fresh_buffer (m_policies s) n])
           \<or> single_buffer n now s = Inl EraseAtEnd"
proof -
  let ?xs = "m_size_list s"
  let ?i = "find_free n s"
  note d = index_invD[OF inv]
  note ff = find_free_spec[OF d(3), of n]
  show ?thesis
  proof (cases "?i < length ?xs")
    case True
    let ?p = "?xs ! ?i"
    have r: "reusable n s ?p" using ff True by blast
    have run: "single_buffer n now s = Inr (Some ?p, take_buffer n ?p s)"
      using d(1) r True by (intro single_buffer_reuse) (simp_all add: reusable_def)
    have ex: "\<exists>q \<in> set ?xs. reusable n s q" using r True nth_mem by blast
    have least: "m_allocated (heap s ! ?p) \<le> m_allocated (heap s ! q)"
      if q: "q \<in> set ?xs" "reusable n s q" for q
    proof -
      from q(1) obtain j where j: "j < length ?xs" "?xs ! j = q" by (auto simp: in_set_conv_nth)
      have "\<not> j < ?i" using ff j q(2) by blast
      then have "?i \<le> j" by simp
      then have "map (\<lambda>p. m_allocated (heap s ! p)) ?xs ! ?i
          \<le> map (\<lambda>p. m_allocated (heap s ! p)) ?xs ! j"
        using d(3) j(1) by (intro sorted_nth_mono) auto
      then show ?thesis using j True by simp
    qed
    have pos: "\<exists>i < length ?xs. ?xs ! i = ?p \<and> (\<forall>k < i. \<not> reusable n s (?xs ! k))"
      using True ff by blast
    have st: "heap (take_buffer n ?p s) = (heap s)[?p := (heap s ! ?p)\<lparr>m_in_use := True,
          m_data_size := n, m_usage_count := m_usage_count (heap s ! ?p) + 1\<rparr>]"
      "m_size_list (take_buffer n ?p s) = ?xs"
      "buffers_available (take_buffer n ?p s) = buffers_available s"
      by (simp_all add: take_buffer_def buffers_available_def)
    show ?thesis using run ex pos r least st by auto
  next
    case False
    let ?p = "length (heap s)"
    have none: "\<not> (\<exists>q \<in> set ?xs. reusable n s q)"
    proof
      assume "\<exists>q \<in> set ?xs. reusable n s q"
      then obtain j where j: "j < length ?xs" "reusable n s (?xs ! j)"
        by (auto simp: in_set_conv_nth)
      have "?i = length ?xs" using ff False by simp
      then show False using ff j by auto
    qed
    have fresh: "?p \<notin> set ?xs" using d(2) by auto
    note run = single_buffer_fresh[OF d(1) False, of now]
    have "(\<exists>s'. single_buffer n now s = Inr (Some ?p, s')
              \<and> heap s' = heap s @ [fresh_buffer (m_policies s) n])
           \<or> single_buffer n now s = Inl EraseAtEnd"
    proof (cases "cleanup_due now (new_buffer n s)")
      case nogc: False
      then show ?thesis using run by (simp add: new_buffer_fields)
    next
      case gc: True
      show ?thesis
      proof (cases "garbage_collect now ((new_buffer n s)\<lparr>m_last_cleanup_check := now\<rparr>)")
        case (Inl e)
        then show ?thesis using run gc garbage_collect_error[OF Inl] by simp
      next
        case (Inr s2)
        then have "heap s2 = heap s @ [fresh_buffer (m_policies s) n]"
          using garbage_collect_result(1)[OF Inr] by (simp add: new_buffer_fields)
        then show ?thesis using run gc Inr by simp
      qed
    qed
    then show ?thesis using none fresh by auto
  qed
qed

text \<open>
  C2. On every pool that calls of the interface lead to (with the release operations of
  either revision, and whatever order the sort leaves equal capacities in) the free index
  is sorted by capacity, and an acquisition of \<open>n\<close> bytes follows first fit: if the index
  holds a record that is free and of capacity at least \<open>n\<close>, the acquisition returns
  the first such record of the index, which has the smallest capacity among them, puts it
  into use in place and leaves the index, so the count of allocated buffers, as it is;
  the index is sorted after the call as before. Only when there is no such record is a
  fresh record allocated; that branch returns the new record unless its sweep fails.
\<close>

theorem first_fit_by_capacity:
  assumes reach: "reachable_api s"
  shows "sorted (map (\<lambda>q. m_allocated (heap s ! q)) (m_size_list s))
     \<and> (\<forall>h s'. single_buffer n now s = Inr (h, s')
          \<longrightarrow> sorted (map (\<lambda>q. m_allocated (heap s' ! q)) (m_size_list s')))
     \<and> (if \<exists>q \<in> set (m_size_list s). reusable n s q
        then \<exists>p s'. single_buffer n now s = Inr (Some p, s')
           \<and> (\<exists>i < length (m_size_list s). m_size_list s ! i = p
              \<and> (\<forall>k < i. \<not> reusable n s (m_size_list s ! k)))
           \<and> reusable n s p
           \<and> (\<forall>q \<in> set (m_size_list s). reusable n s q
                 \<longrightarrow> m_allocated (heap s ! p) \<le> m_allocated (heap s ! q))
           \<and> heap s' = (heap s)[p := (heap s ! p)\<lparr>m_in_use := True, m_data_size := n,
                 m_usage_count := m_usage_count (heap s ! p) + 1\<rparr>]
           \<and> m_size_list s' = m_size_list s
           \<and> buffers_available s' = buffers_available s
        else (\<exists>s'. single_buffer n now s = Inr (Some (length (heap s)), s')
              \<and> length (heap s) \<notin> set (m_size_list s)
              \<and> heap s' = heap s @ [fresh_buffer (m_policies s) n])
           \<or> single_buffer n now s = Inl EraseAtEnd)"
proof -
  have inv: "index_inv s" using reach by (rule reachable_api_inv)
  have 1: "sorted (map (\<lambda>q. m_allocated (heap s ! q)) (m_size_list s))"
    using index_invD(3)[OF inv] .
  have 2: "\<forall>h s'. single_buffer n now s = Inr (h, s')
          \<longrightarrow> sorted (map (\<lambda>q. m_allocated (heap s' ! q)) (m_size_list s'))"
    using single_buffer_index_inv[OF inv] index_invD(3) by blast
  from 1 2 single_buffer_first_fit_sorted[OF inv, of n now] show ?thesis by simp
qed

lemma scenario_reachable_api:
  "reachable_api pool_ready" "reachable_api pool_A" "reachable_api pool_A_released"
proof -
  show 0: "reachable_api pool_ready" unfolding pool_ready_def by (rule api_initialize)
  show 1: "reachable_api pool_A" by (rule api_single_buffer[OF 0 scenario_A])
  show "reachable_api pool_A_released" by (rule api_release_buffer[OF 1 scenario_A_released])
qed

theorem first_fit_by_capacity_witness:
  "reachable_api pool_A_released
   \<and> single_buffer 100 5 pool_ready = Inr (Some 0, pool_A)
   \<and> release_buffer (Some 0) 6 pool_A = Inr (True, pool_A_released)
   \<and> single_buffer 50 7 pool_A_released = Inr (Some 0, pool_B)
   \<and> buffers_available pool_B = 1
   \<and> reusable 50 pool_A_released 0
   \<and> sorted (map (\<lambda>q. m_allocated (heap pool_B ! q)) (m_size_list pool_B))
   \<and> (\<exists>p s'. single_buffer 50 7 pool_A_released = Inr (Some p, s')
        \<and> reusable 50 pool_A_released p
        \<and> buffers_available s' = buffers_available pool_A_released)
   \<and> reachable_api pool_ready
   \<and> \<not> (\<exists>q \<in> set (m_size_list pool_ready). reusable 100 pool_ready q)
   \<and> (\<exists>s'. single_buffer 100 5 pool_ready = Inr (Some (length (heap pool_ready)), s')
        \<and> heap s' = heap pool_ready @ [fresh_buffer (m_policies pool_ready) 100])
   \<and> sorted (map (\<lambda>q. m_allocated (heap pool_A ! q)) (m_size_list pool_A))"
proof -
  note t1 = first_fit_by_capacity[OF scenario_reachable_api(3), of 50 7]
  note t2 = first_fit_by_capacity[OF scenario_reachable_api(1), of 100 5]
  have r: "reusable 50 pool_A_released 0"
    by (simp add: reusable_def pool_A_released_def pool_A_def buffer_A_def)
  have av: "buffers_available pool_B = 1"
    by (simp add: buffers_available_def pool_B_def pool_A_def)
  have none: "\<not> (\<exists>q \<in> set (m_size_list pool_ready). reusable 100 pool_ready q)"
    by (simp add: pool_ready_def initialize_def static_init_def)
  have sB: "sorted (map (\<lambda>q. m_allocated (heap pool_B ! q)) (m_size_list pool_B))"
    using t1 scenario_B by blast
  have sA: "sorted (map (\<lambda>q. m_allocated (heap pool_A ! q)) (m_size_list pool_A))"
    using t2 scenario_A by blast
  have ex: "\<exists>q \<in> set (m_size_list pool_A_released). reusable 50 pool_A_released q"
    using r by (simp add: pool_A_released_def pool_A_def)
  have reuse: "\<exists>p s'. single_buffer 50 7 pool_A_released = Inr (Some p, s')
        \<and> reusable 50 pool_A_released p
        \<and> buffers_available s' = buffers_available pool_A_released"
    using t1 ex by auto
  have "(\<exists>s'. single_buffer 100 5 pool_ready = Inr (Some (length (heap pool_ready)), s')
        \<and> heap s' = heap pool_ready @ [fresh_buffer (m_policies pool_ready) 100])
      \<or> single_buffer 100 5 pool_ready = Inl EraseAtEnd"
    using t2 none by auto
  then have fresh: "\<exists>s'. single_buffer 100 5 pool_ready = Inr (Some (length (heap pool_ready)), s')
        \<and> heap s' = heap pool_ready @ [fresh_buffer (m_policies pool_ready) 100]"
    using scenario_A by simp
  show ?thesis
    using scenario_reachable_api scenario_A scenario_A_released scenario_B r av none sA sB
      reuse fresh
    by blast
qed

section \<open>A release after an eviction, lines 548-559\<close>

lemma fresh_buffer_last_used: "m_last_used (fresh_buffer pol n) = 0"
  by (simp add: fresh_buffer_def Buffer_new_def)

lemma stale_release_1:
  "release_buffer (Some 1) 1 (new_buffer 20 (new_buffer 10 (set_cleanup_timeout 5 0 pool_ready)))
     = Inr (True, pool_idle)"
  by (simp add: release_buffer_def deref_def new_buffer_def Let_def sort_by_allocated_def
      set_cleanup_timeout_def set_policy_def pool_ready_def initialize_def static_init_def
      pool_idle_def fresh_buffer_fields insert_commute)

lemma find_free_idle: "find_free 50 pool_idle = 2"
  by (simp add: find_free_def pool_idle_def lower_bound_def lower_bound_from.simps
      skip_in_use.simps fresh_buffer_fields)

lemma new_buffer_idle:
  "new_buffer 50 pool_idle = pool_idle\<lparr>
     heap := heap pool_idle @ [fresh_buffer {ZeroBuffer, DropOld} 50],
     m_buffers := Map.empty(0 \<mapsto> True, 1 \<mapsto> True, 2 \<mapsto> True),
     m_buffers_in_use := 2,
     m_size_list := [0, 1, 2]\<rparr>"
  by (simp add: new_buffer_def pool_idle_def Let_def sort_by_allocated_def fresh_buffer_fields
      numeral_2_eq_2[symmetric])

lemma stale_acquire_2: "single_buffer 50 10 pool_idle = Inr (Some 2, pool_evicted)"
proof -
  let ?s1 = "(new_buffer 50 pool_idle)\<lparr>m_last_cleanup_check := 10\<rparr>"
  have init: "m_initialized pool_idle" by (simp add: pool_idle_def)
  have nf: "\<not> find_free 50 pool_idle < length (m_size_list pool_idle)"
    by (simp add: find_free_idle) (simp add: pool_idle_def)
  have due: "cleanup_due 10 (new_buffer 50 pool_idle)"
    by (simp add: cleanup_due_new_buffer) (simp add: pool_idle_def)
  have drop: "buffers_to_drop 10 ?s1 = [1]"
    unfolding new_buffer_idle
    by (simp add: buffers_to_drop_def pool_idle_def too_old_def upt_rec fresh_buffer_fields
        del: not_None_eq)
  have gc: "garbage_collect 10 ?s1 = Inr pool_evicted"
    unfolding garbage_collect_def drop
    unfolding new_buffer_idle
    by (simp add: pool_idle_def pool_evicted_def fun_eq_iff)
  have len: "length (heap pool_idle) = 2" by (simp add: pool_idle_def)
  show ?thesis
    using single_buffer_fresh[OF init nf, of 10] due gc len by simp
qed

lemma stale_release_2: "release_buffer (Some 1) 11 pool_evicted = Inr (True, pool_stale)"
  by (simp add: release_buffer_def deref_def pool_evicted_def pool_idle_def pool_stale_def
      fun_eq_iff)

lemma find_free_stale: "find_free 60 pool_stale = 2"
  by (simp add: find_free_def pool_stale_def pool_evicted_def pool_idle_def lower_bound_def
      lower_bound_from.simps skip_in_use.simps fresh_buffer_fields)

lemma new_buffer_stale:
  "new_buffer 60 pool_stale = pool_stale\<lparr>
     heap := heap pool_stale @ [fresh_buffer {ZeroBuffer, DropOld} 60],
     m_buffers := Map.empty(0 \<mapsto> True, 1 \<mapsto> True, 2 \<mapsto> True, 3 \<mapsto> True),
     m_buffers_in_use := 2,
     m_size_list := [0, 2, 3]\<rparr>"
  by (simp add: new_buffer_def pool_stale_def pool_evicted_def pool_idle_def Let_def
      sort_by_allocated_def fresh_buffer_fields numeral_3_eq_3)

lemma stale_sweep_due: "cleanup_due 20 (new_buffer 60 pool_stale)"
  by (simp add: cleanup_due_new_buffer) (simp add: pool_stale_def pool_evicted_def pool_idle_def)

lemma stale_sweep_drop:
  "buffers_to_drop 20 ((new_buffer 60 pool_stale)\<lparr>m_last_cleanup_check := 20\<rparr>) = [1]"
  unfolding new_buffer_stale
  by (simp add: buffers_to_drop_def pool_stale_def pool_evicted_def pool_idle_def too_old_def
      upt_rec fresh_buffer_fields fresh_buffer_last_used del: not_None_eq)

lemma stale_sweep:
  "garbage_collect 20 ((new_buffer 60 pool_stale)\<lparr>m_last_cleanup_check := 20\<rparr>) = Inl EraseAtEnd"
  unfolding garbage_collect_def stale_sweep_drop
  unfolding new_buffer_stale
  by (simp add: pool_stale_def pool_evicted_def pool_idle_def)

lemma stale_acquire_3: "single_buffer 60 20 pool_stale = Inl EraseAtEnd"
proof -
  have init: "m_initialized pool_stale"
    by (simp add: pool_stale_def pool_evicted_def pool_idle_def)
  have nf: "\<not> find_free 60 pool_stale < length (m_size_list pool_stale)"
    by (simp add: find_free_stale) (simp add: pool_stale_def pool_evicted_def pool_idle_def)
  show ?thesis
    using single_buffer_fresh[OF init nf, of 20] stale_sweep_due stale_sweep by simp
qed

text \<open>The pool is one the interface leads to, and it is not well-formed.\<close>

lemma pool_stale_reachable: "reachable_api pool_stale"
proof -
  let ?s0 = "set_cleanup_timeout 5 0 pool_ready"
  have 0: "reachable_api ?s0"
    unfolding pool_ready_def by (rule api_set_cleanup_timeout) (rule api_initialize)
  have 1: "reachable_api (new_buffer 10 ?s0)" by (rule api_single_buffer[OF 0 pool_gc_steps(1)])
  have 2: "reachable_api (new_buffer 20 (new_buffer 10 ?s0))"
    by (rule api_single_buffer[OF 1 pool_gc_steps(2)])
  have 3: "reachable_api pool_idle" by (rule api_release_buffer[OF 2 stale_release_1])
  have 4: "reachable_api pool_evicted" by (rule api_single_buffer[OF 3 stale_acquire_2])
  show ?thesis by (rule api_release_buffer[OF 4 stale_release_2])
qed

lemma pool_stale_not_wf: "\<not> pool_wf pool_stale"
proof
  assume "pool_wf pool_stale"
  then have "\<forall>p < length (heap pool_stale). m_buffers pool_stale p \<noteq> None
      \<longrightarrow> p \<in> set (m_size_list pool_stale)"
    by (simp add: pool_wf_def)
  moreover have "1 < length (heap pool_stale)" "m_buffers pool_stale 1 \<noteq> None"
    "1 \<notin> set (m_size_list pool_stale)"
    by (simp_all add: pool_stale_def pool_evicted_def pool_idle_def)
  ultimately show False by blast
qed

section \<open>Acquisition: the contract\<close>

text \<open>
  With the release operations of lines 292-371, every pool the interface leads to is
  well-formed, so for every size an acquisition returns a handle to a record of
  sufficient capacity, in use, with \<open>m_data_size\<close> set to the size asked for.
\<close>

lemma single_buffer_contract_guarded:
  assumes "reachable r s"
  shows "\<exists>p s'. single_buffer n now s = Inr (Some p, s') \<and> p < length (heap s')
           \<and> n \<le> m_allocated (heap s' ! p) \<and> m_in_use (heap s' ! p)
           \<and> m_data_size (heap s' ! p) = n"
  using reachable_wf[OF assms] by (rule single_buffer_post)

text \<open>
  C1. The specification has every acquisition of a size \<open>n > 0\<close> return a handle to a
  record of capacity at least \<open>n\<close>, in use, with \<open>m_data_size = n\<close>. With the release
  of lines 548-559 this run ends otherwise. The timeout is 5 seconds. Buffers of 10 and
  20 bytes are acquired at time 0 and the second is released at time 1. An acquisition of
  50 bytes at time 10 allocates a third record, and its sweep evicts the second. The
  caller releases the evicted handle again at time 11, which makes it a key of
  \<^verbatim>\<open>m_buffers\<close> once more. The acquisition of 60 bytes at time 20 then allocates a
  fourth record and runs a sweep that looks for the second record in \<^verbatim>\<open>m_size_list\<close>,
  does not find it and erases at \<^verbatim>\<open>end()\<close>: no handle is returned.
\<close>

theorem single_buffer_after_stale_release:
  "single_buffer 10 0 (set_cleanup_timeout 5 0 pool_ready)
     = Inr (Some 0, new_buffer 10 (set_cleanup_timeout 5 0 pool_ready))
   \<and> single_buffer 20 0 (new_buffer 10 (set_cleanup_timeout 5 0 pool_ready))
     = Inr (Some 1, new_buffer 20 (new_buffer 10 (set_cleanup_timeout 5 0 pool_ready)))
   \<and> release_buffer (Some 1) 1
       (new_buffer 20 (new_buffer 10 (set_cleanup_timeout 5 0 pool_ready)))
     = Inr (True, pool_idle)
   \<and> single_buffer 50 10 pool_idle = Inr (Some 2, pool_evicted)
   \<and> release_buffer (Some 1) 11 pool_evicted = Inr (True, pool_stale)
   \<and> (0 :: 32 word) < 60
   \<and> single_buffer 60 20 pool_stale = Inl EraseAtEnd"
  using pool_gc_steps(1,2) stale_release_1 stale_acquire_2 stale_release_2 stale_acquire_3
  by simp

section \<open>Eviction: what a sweep removes\<close>

text \<open>With the release operations of lines 292-371 a sweep is always run on a well-formed pool.\<close>

lemma garbage_collect_guarded:
  assumes "reachable r s"
  shows "\<exists>s'. garbage_collect start_time s = Inr s'
     \<and> (\<forall>p. (m_buffers s p \<noteq> None \<and> m_buffers s' p = None)
              \<or> (p \<in> set (m_size_list s) \<and> p \<notin> set (m_size_list s'))
          \<longrightarrow> \<not> m_in_use (heap s ! p)
              \<and> start_time - m_last_used (heap s ! p) > m_cleanup_timeout s)
     \<and> heap s' = heap s
     \<and> (\<forall>p. m_buffers s' p \<noteq> None \<longrightarrow> m_buffers s' p = m_buffers s p)
     \<and> set (m_size_list s') \<subseteq> set (m_size_list s)
     \<and> filter (\<lambda>p. \<not> too_old start_time s p) (m_size_list s')
         = filter (\<lambda>p. \<not> too_old start_time s p) (m_size_list s)"
  using reachable_wf[OF assms] by (rule garbage_collect_wf)

text \<open>
  C7. The specification has a sweep remove only records that are free and idle for more
  than the timeout, and leave the others as they are. In the run above, the sweep of the
  last acquisition is \<open>garbage_collect 20\<close> on the pool that holds the new, fourth record.
  It collects record 1 (free, idle for 9 seconds), which \<^verbatim>\<open>m_size_list\<close> = [0, 2, 3]
  does not hold, so \<^verbatim>\<open>std::find\<close> returns \<^verbatim>\<open>end()\<close> and the sweep erases there. The
  entry at the end of \<^verbatim>\<open>m_size_list\<close> is record 3, which is in use.
\<close>

theorem garbage_collect_erases_at_end:
  "release_buffer (Some 1) 11 pool_evicted = Inr (True, pool_stale)
   \<and> cleanup_due 20 (new_buffer 60 pool_stale)
   \<and> buffers_to_drop 20 ((new_buffer 60 pool_stale)\<lparr>m_last_cleanup_check := 20\<rparr>) = [1]
   \<and> m_size_list ((new_buffer 60 pool_stale)\<lparr>m_last_cleanup_check := 20\<rparr>) = [0, 2, 3]
   \<and> m_in_use (heap ((new_buffer 60 pool_stale)\<lparr>m_last_cleanup_check := 20\<rparr>) ! 3)
   \<and> garbage_collect 20 ((new_buffer 60 pool_stale)\<lparr>m_last_cleanup_check := 20\<rparr>)
       = Inl EraseAtEnd"
proof -
  have "m_size_list ((new_buffer 60 pool_stale)\<lparr>m_last_cleanup_check := 20\<rparr>) = [0, 2, 3]"
    "m_in_use (heap ((new_buffer 60 pool_stale)\<lparr>m_last_cleanup_check := 20\<rparr>) ! 3)"
    unfolding new_buffer_stale
    by (simp_all add: pool_stale_def pool_evicted_def pool_idle_def fresh_buffer_fields)
  then show ?thesis
    using stale_release_2 stale_sweep_due stale_sweep_drop stale_sweep by simp
qed

section \<open>Configuration: the cleanup timeout and the eviction policy\<close>

text \<open>
  C10. For every value of \<open>seconds\<close>, zero included, \<open>set_cleanup_timeout\<close> leaves the
  \<open>DropOld\<close> policy active.
\<close>

theorem set_cleanup_timeout_sets_DropOld:
  "policy_is_active DropOld (set_cleanup_timeout seconds now s)
   \<and> policy_is_active DropOld (set_cleanup_timeout 0 now s)"
  by (simp add: policy_is_active_def set_cleanup_timeout_def set_policy_def)

end
